theory Spec2Isabelle
  imports Main
begin

section \<open>The ArangoSearch view block (arangod/IResearch/IResearchViewBlock.cpp)\<close>

text \<open>
  A shallow embedding of the view execution block: the row context
  (\<open>ViewExpressionContext\<close>), the predicate compilation of \<open>reset()\<close>, the document
  materializer (\<open>readDocument\<close>), the two scan strategies (\<open>IResearchViewBlock\<close>, with
  scores, and \<open>IResearchViewUnorderedBlock\<close>) and the pull protocol (\<open>getSome\<close>,
  \<open>skipSome\<close>). Members of the C++ object are the fields of one record, every function
  takes the object and returns it updated, and a thrown exception is the \<open>Inl\<close> of the
  result, returned together with the object as the throw left it.
\<close>

subsection \<open>Data\<close>

datatype ExecutionState = DONE | HASMORE | WAITING

datatype error =
    TRI_ERROR_INTERNAL
  | TRI_ERROR_BAD_PARAMETER
  | TRI_ERROR_QUERY_KILLED
  | TRI_ERROR_DEBUG
  | TRI_ASSERT_FAILED

text \<open>An \<open>AqlValue\<close> is an empty register or a value; the payload is opaque.\<close>

datatype AqlValue = AqlEmpty | AqlSlice nat

text \<open>An \<open>AqlItemBlock\<close>: \<open>nrRegs\<close> registers per row; \<open>size()\<close> is the number of rows.\<close>

record AqlItemBlock =
  nrRegs :: nat
  rows :: "AqlValue list list"

definition size_blk :: "AqlItemBlock \<Rightarrow> nat" where
  "size_blk b = length (rows b)"

text \<open>A \<open>Variable\<close> is passed by pointer: \<open>var_ptr\<close> is its address, \<open>var_id\<close> its id.\<close>

record Variable =
  var_ptr :: nat
  var_id :: nat

type_synonym doc_id = nat
type_synonym bytes = "nat list"

record DocumentPrimaryKey =
  cid :: nat
  rid :: nat

text \<open>
  The compiled predicate. The filter tree built by \<open>FilterFactory::filter\<close> and the
  scorers built by \<open>OrderFactory::scorer\<close> are opaque values of the predicate compiler;
  \<open>order.prepare()\<close> and \<open>root.prepare(reader, order, ...)\<close> are kept symbolic.
  \<open>EmptyFilter\<close> is \<open>irs::filter::prepared::empty()\<close>.
\<close>

type_synonym Root = nat
type_synonym Scorer = nat
type_synonym SortNode = nat
type_synonym Order = "(bool \<times> Scorer) list"

datatype PreparedFilter = EmptyFilter | Prepared Root Order

text \<open>The row context of \<open>ViewExpressionContext\<close>: \<open>_data\<close> (null at first) and \<open>_pos\<close>.\<close>

type_synonym RowCtx = "AqlItemBlock option \<times> nat"

text \<open>
  A segment of the index snapshot (\<open>_reader[i]\<close>): its primary key column
  (\<open>_reader.pkColumn(i)\<close>, which may have no value for a document) and the masked
  matches of a prepared filter, in the iterator's order
  (\<open>segmentReader.mask(_filter->execute(segmentReader, _order, _filterCtx))\<close>); the
  execution context \<open>_filterCtx\<close> gives access to the row context.
\<close>

record Segment =
  pkColumn :: "doc_id \<Rightarrow> bytes option"
  execute :: "PreparedFilter \<Rightarrow> Order \<Rightarrow> RowCtx \<Rightarrow> doc_id list"

datatype Strategy = Scored | Unordered

text \<open>
  Everything the block reads but does not own: the plan node, the register plan, the
  predicate compiler, the index snapshot and the storage engine. \<open>strategy\<close> is the
  dynamic class of the block (\<open>Scored\<close> is \<open>IResearchViewBlock\<close>).
\<close>

record Env =
  strategy :: Strategy
  DefaultBatchSize :: nat
  nrInputRegisters :: nat
  nrOutputRegisters :: nat
  regsToClear :: "nat list"
  killed :: bool
  failurePoint :: bool
  outVariable :: nat
  varInfo :: "nat \<Rightarrow> nat option"
  MaxRegisterId :: nat
  sortCondition :: "(SortNode \<times> bool) list"
  volatility :: "bool \<times> bool"
  FilterFactory_filter :: "RowCtx \<Rightarrow> Root option"
  OrderFactory_scorer :: "SortNode \<Rightarrow> RowCtx \<Rightarrow> Scorer option"
  reader :: "Segment list"
  pk_read :: "bytes \<Rightarrow> DocumentPrimaryKey option"
  collection :: "nat \<Rightarrow> (nat \<Rightarrow> nat option) option"
  score_to_string :: "Order \<Rightarrow> nat \<Rightarrow> doc_id \<Rightarrow> nat \<Rightarrow> AqlValue"

text \<open>
  The upstream block (\<open>_dependencies[0]\<close>) is the list of the answers it will give to
  the coming \<open>getSome(n)\<close> calls, each a function of the requested \<open>n\<close>; a \<open>None\<close> block
  is \<open>nullptr\<close>. Once the list is used up the upstream answers \<open>(DONE, nullptr)\<close>.
\<close>

type_synonym Upstream = "(nat \<Rightarrow> ExecutionState \<times> AqlItemBlock option) list"

text \<open>The members of the block; \<open>m_x\<close> is the member \<open>_x\<close>.\<close>

record ViewBlock =
  m_done :: bool
  m_buffer :: "AqlItemBlock list"
  m_pos :: nat
  m_upstreamState :: ExecutionState
  m_inflight :: nat
  m_hasMore :: bool
  m_volatileSort :: bool
  m_volatileFilter :: bool
  m_filter :: PreparedFilter
  m_order :: Order
  m_ctx :: RowCtx
  m_readerOffset :: nat
  m_itr :: "doc_id list option"
  m_keys :: "DocumentPrimaryKey list"
  m_scannedIndex :: int
  m_dependencies :: Upstream

subsection \<open>ViewExpressionContext::getVariableValue\<close>

text \<open>\<open>getRegister\<close>: the register of a variable, \<open>MaxRegisterId\<close> when it has none.\<close>

definition getRegister :: "Env \<Rightarrow> Variable \<Rightarrow> nat" where
  "getRegister env var =
     (case varInfo env (var_id var) of
        None \<Rightarrow> MaxRegisterId env
      | Some registerId \<Rightarrow> registerId)"

text \<open>
  What \<open>getVariableValue\<close> hands out: \<open>value.clone()\<close> is a copy of its own, \<open>value\<close>
  shares the register's storage.
\<close>

datatype AqlValueResult = Cloned AqlValue | Borrowed AqlValue

text \<open>
  \<open>_data->getValueReference(_pos, reg)\<close>: the block asserts that the row and the
  register exist.
\<close>

definition getValueReference :: "AqlItemBlock \<Rightarrow> nat \<Rightarrow> nat \<Rightarrow> error + AqlValue" where
  "getValueReference b p reg =
     (if p < length (rows b) \<and> reg < length (rows b ! p)
      then Inr (rows b ! p ! reg)
      else Inl TRI_ASSERT_FAILED)"

text \<open>The result is the returned value and \<open>mustDestroy\<close>.\<close>

definition getVariableValue ::
  "Env \<Rightarrow> RowCtx \<Rightarrow> Variable \<Rightarrow> bool \<Rightarrow> error + (AqlValueResult \<times> bool)" where
  "getVariableValue env ctx var doCopy =
     (if var_ptr var = outVariable env then Inl TRI_ERROR_INTERNAL
      else
        let reg = getRegister env var in
        if reg = MaxRegisterId env then Inl TRI_ERROR_INTERNAL
        else
          (case fst ctx of
             None \<Rightarrow> Inl TRI_ASSERT_FAILED
           | Some d \<Rightarrow>
               (case getValueReference d (snd ctx) reg of
                  Inl e \<Rightarrow> Inl e
                | Inr v \<Rightarrow>
                    if doCopy then Inr (Cloned v, True)
                    else Inr (Borrowed v, False))))"

definition numRegisters :: "RowCtx \<Rightarrow> error + nat" where
  "numRegisters ctx =
     (case fst ctx of None \<Rightarrow> Inl TRI_ASSERT_FAILED | Some d \<Rightarrow> Inr (nrRegs d))"

subsection \<open>IResearchViewBlockBase::reset\<close>

text \<open>The loop over \<open>viewNode.sortCondition()\<close>; \<open>None\<close> when a scorer fails to compile.\<close>

fun build_order :: "Env \<Rightarrow> RowCtx \<Rightarrow> (SortNode \<times> bool) list \<Rightarrow> Order \<Rightarrow> Order option" where
  "build_order env ctx [] order = Some order"
| "build_order env ctx (srt # sorts) order =
     (case OrderFactory_scorer env (fst srt) ctx of
        None \<Rightarrow> None
      | Some scorer \<Rightarrow> build_order env ctx sorts (order @ [(snd srt, scorer)]))"

definition reset_base :: "Env \<Rightarrow> ViewBlock \<Rightarrow> error option \<times> ViewBlock" where
  "reset_base env s =
     (case m_buffer s of
        [] \<Rightarrow> (Some TRI_ASSERT_FAILED, s)
      | front # _ \<Rightarrow>
          let s1 = s\<lparr>m_ctx := (Some front, m_pos s)\<rparr> in
          if m_volatileFilter s1 then
            (case FilterFactory_filter env (m_ctx s1) of
               None \<Rightarrow> (Some TRI_ERROR_BAD_PARAMETER, s1)
             | Some root \<Rightarrow>
                 (case (if m_volatileSort s1
                        then map_option (\<lambda>order. s1\<lparr>m_order := order\<rparr>)
                               (build_order env (m_ctx s1) (sortCondition env) [])
                        else Some s1) of
                    None \<Rightarrow> (Some TRI_ERROR_BAD_PARAMETER, s1)
                  | Some s2 \<Rightarrow>
                      (None,
                       s2\<lparr>m_filter := Prepared root (m_order s2),
                          m_volatileSort := snd (volatility env),
                          m_volatileFilter := (snd (volatility env) \<or> fst (volatility env))\<rparr>)))
          else (None, s1))"

text \<open>
  Modelled from the spec: the override of \<open>reset()\<close> in the scan strategy classes, which
  is declared in IResearchViewBlock.h and so is not in the file. Section 3 of the
  specification: the Read Cursor (current segment index, current segment's live match
  iterator) is "recreated whenever the row context changes" and "rebuilt on every
  input-row transition". The calls \<open>reset()\<close> of \<open>getSome\<close> and \<open>skipSome\<close> are virtual.
\<close>

definition reset :: "Env \<Rightarrow> ViewBlock \<Rightarrow> error option \<times> ViewBlock" where
  "reset env s =
     (case reset_base env s of
        (Some e, s1) \<Rightarrow> (Some e, s1)
      | (None, s1) \<Rightarrow> (None, s1\<lparr>m_itr := None, m_readerOffset := 0\<rparr>))"

subsection \<open>The document materializer: readDocument\<close>

text \<open>
  Both overloads return whether the document was read; the callback is called with the
  document exactly then, so the result is the document, or \<open>None\<close> for \<open>false\<close>.
\<close>

definition readDocument_pk :: "Env \<Rightarrow> DocumentPrimaryKey \<Rightarrow> nat option" where
  "readDocument_pk env docPk =
     (case collection env (cid docPk) of
        None \<Rightarrow> None
      | Some coll \<Rightarrow> coll (rid docPk))"

text \<open>The caller has checked \<open>subReaderId < _reader.size()\<close>.\<close>

definition readDocument_sub :: "Env \<Rightarrow> nat \<Rightarrow> doc_id \<Rightarrow> nat option" where
  "readDocument_sub env subReaderId docId =
     (case pkColumn (reader env ! subReaderId) docId of
        None \<Rightarrow> None
      | Some tmpRef \<Rightarrow>
          (case pk_read env tmpRef of
             None \<Rightarrow> None
           | Some docPk \<Rightarrow>
               (case collection env (cid docPk) of
                  None \<Rightarrow> None
                | Some coll \<Rightarrow> coll (rid docPk))))"

subsection \<open>Output blocks and the read context\<close>

text \<open>
  \<open>requestBlock(nrItems, nrRegs)\<close> gives a block of empty registers. \<open>setValue\<close> and
  \<open>copyValuesFromFirstRow\<close> assert that the row and the register exist; outside the
  block the model writes nothing.
\<close>

definition requestBlock :: "nat \<Rightarrow> nat \<Rightarrow> AqlItemBlock" where
  "requestBlock nrItems n = \<lparr>nrRegs = n, rows = replicate nrItems (replicate n AqlEmpty)\<rparr>"

definition setValue :: "nat \<Rightarrow> nat \<Rightarrow> AqlValue \<Rightarrow> AqlItemBlock \<Rightarrow> AqlItemBlock" where
  "setValue index varNr v b =
     (if index < length (rows b)
      then b\<lparr>rows := (rows b)[index := (rows b ! index)[varNr := v]]\<rparr>
      else b)"

definition copyValuesFromFirstRow :: "nat \<Rightarrow> nat \<Rightarrow> AqlItemBlock \<Rightarrow> AqlItemBlock" where
  "copyValuesFromFirstRow currentRow n b =
     (if 0 < currentRow \<and> currentRow < length (rows b)
      then b\<lparr>rows := (rows b)[currentRow :=
                 take n (rows b ! 0) @ drop n (rows b ! currentRow)]\<rparr>
      else b)"

text \<open>\<open>inheritRegisters(src, dst, row)\<close>: the first row of \<open>dst\<close> takes the registers of \<open>src\<close>.\<close>

definition inheritRegisters :: "nat \<Rightarrow> AqlItemBlock \<Rightarrow> nat \<Rightarrow> AqlItemBlock \<Rightarrow> AqlItemBlock" where
  "inheritRegisters n src row dst =
     (if row < length (rows src) \<and> 0 < length (rows dst)
      then dst\<lparr>rows := (rows dst)[0 := take n (rows src ! row) @ drop n (rows dst ! 0)]\<rparr>
      else dst)"

definition shrink :: "nat \<Rightarrow> AqlItemBlock \<Rightarrow> AqlItemBlock" where
  "shrink nrItems b = b\<lparr>rows := take nrItems (rows b)\<rparr>"

definition clearRegisters :: "Env \<Rightarrow> AqlItemBlock \<Rightarrow> AqlItemBlock" where
  "clearRegisters env b =
     b\<lparr>rows := map (\<lambda>r. fold (\<lambda>reg r'. r'[reg := AqlEmpty]) (regsToClear env) r) (rows b)\<rparr>"

record ReadContext =
  curRegs :: nat
  res :: "AqlItemBlock option"
  pos :: nat

definition ctx_setValue :: "nat \<Rightarrow> AqlValue \<Rightarrow> ReadContext \<Rightarrow> ReadContext" where
  "ctx_setValue reg v ctx = ctx\<lparr>res := map_option (setValue (pos ctx) reg v) (res ctx)\<rparr>"

text \<open>The callback \<open>copyDocument\<close> of both strategies.\<close>

definition copyDocument :: "nat \<Rightarrow> ReadContext \<Rightarrow> ReadContext" where
  "copyDocument doc ctx = ctx_setValue (curRegs ctx) (AqlSlice doc) ctx"

text \<open>\<open>if (ctx.pos > 0) copyValuesFromFirstRow(...)\<close>; \<open>++ctx.pos\<close>.\<close>

definition finish_row :: "ReadContext \<Rightarrow> ReadContext" where
  "finish_row ctx =
     (let ctx1 = (if 0 < pos ctx
                  then ctx\<lparr>res := map_option (copyValuesFromFirstRow (pos ctx) (curRegs ctx)) (res ctx)\<rparr>
                  else ctx)
      in ctx1\<lparr>pos := pos ctx1 + 1\<rparr>)"

subsection \<open>The scored strategy: IResearchViewBlock\<close>

text \<open>
  An iterator is the list of the matches it has not returned yet: \<open>_itr->next()\<close> takes
  the head. \<open>new_iterator\<close> is the masked execution of the filter on the current segment
  (\<open>resetIterator\<close>; the score attribute it caches is read through \<open>score_to_string\<close>).
\<close>

definition new_iterator :: "Env \<Rightarrow> ViewBlock \<Rightarrow> doc_id list" where
  "new_iterator env s =
     execute (reader env ! m_readerOffset s) (m_filter s) (m_order s) (m_ctx s)"

text \<open>The score registers \<open>curRegs + 1, ..., curRegs + numSorts\<close> of the current row.\<close>

fun copy_scores :: "Env \<Rightarrow> Order \<Rightarrow> nat \<Rightarrow> doc_id \<Rightarrow> nat list \<Rightarrow> ReadContext \<Rightarrow> ReadContext" where
  "copy_scores env ord off d [] ctx = ctx"
| "copy_scores env ord off d (i # is) ctx =
     copy_scores env ord off d is
       (ctx_setValue (curRegs ctx + 1 + i) (score_to_string env ord off d i) ctx)"

text \<open>\<open>while (limit && _itr->next()) { ... }\<close>: the iterator left, the limit left, the context.\<close>

fun next_scored_while ::
  "Env \<Rightarrow> Order \<Rightarrow> nat \<Rightarrow> doc_id list \<Rightarrow> nat \<Rightarrow> ReadContext \<Rightarrow> doc_id list \<times> nat \<times> ReadContext" where
  "next_scored_while env ord off [] limit ctx = ([], limit, ctx)"
| "next_scored_while env ord off (d # ds) limit ctx =
     (if limit = 0 then (d # ds, limit, ctx)
      else
        (case readDocument_sub env off d of
           None \<Rightarrow> next_scored_while env ord off ds limit ctx
         | Some doc \<Rightarrow>
             next_scored_while env ord off ds (limit - 1)
               (finish_row
                 (copy_scores env ord off d [0 ..< length (sortCondition env)]
                   (copyDocument doc ctx)))))"

text \<open>The loop over the segments; the result has the limit that is left.\<close>

function next_scored_for ::
  "Env \<Rightarrow> nat \<Rightarrow> ReadContext \<Rightarrow> ViewBlock \<Rightarrow> nat \<times> ReadContext \<times> ViewBlock" where
  "next_scored_for env limit ctx s =
     (if m_readerOffset s < length (reader env) then
        (case next_scored_while env (m_order s) (m_readerOffset s)
                (case m_itr s of None \<Rightarrow> new_iterator env s | Some it \<Rightarrow> it) limit ctx of
           (it1, limit1, ctx1) \<Rightarrow>
             if limit1 = 0 then (limit1, ctx1, s\<lparr>m_itr := Some it1\<rparr>)
             else next_scored_for env limit1 ctx1
                    (s\<lparr>m_readerOffset := m_readerOffset s + 1, m_itr := None\<rparr>))
      else (limit, ctx, s))"
  by pat_completeness auto
termination
  by (relation "measure (\<lambda>(env, limit, ctx, s). length (reader env) - m_readerOffset s)") auto

declare next_scored_for.simps [simp del]

definition next_scored :: "Env \<Rightarrow> ReadContext \<Rightarrow> nat \<Rightarrow> ViewBlock \<Rightarrow> bool \<times> ReadContext \<times> ViewBlock" where
  "next_scored env ctx limit s =
     (case next_scored_for env limit ctx s of
        (limit1, ctx1, s1) \<Rightarrow> (limit1 = 0, ctx1, s1))"

subsection \<open>Skipping\<close>

text \<open>\<open>while (limit && _itr->next()) { ++skipped; --limit; }\<close>\<close>

fun skip_while :: "doc_id list \<Rightarrow> nat \<Rightarrow> nat \<Rightarrow> doc_id list \<times> nat \<times> nat" where
  "skip_while [] limit skipped = ([], limit, skipped)"
| "skip_while (d # ds) limit skipped =
     (if limit = 0 then (d # ds, limit, skipped)
      else skip_while ds (limit - 1) (skipped + 1))"

function skip_for :: "Env \<Rightarrow> nat \<Rightarrow> nat \<Rightarrow> ViewBlock \<Rightarrow> nat \<times> ViewBlock" where
  "skip_for env limit skipped s =
     (if m_readerOffset s < length (reader env) then
        (case skip_while (case m_itr s of None \<Rightarrow> new_iterator env s | Some it \<Rightarrow> it)
                limit skipped of
           (it1, limit1, skipped1) \<Rightarrow>
             if limit1 = 0 then (skipped1, s\<lparr>m_itr := Some it1\<rparr>)
             else skip_for env limit1 skipped1
                    (s\<lparr>m_readerOffset := m_readerOffset s + 1, m_itr := None\<rparr>))
      else (skipped, s))"
  by pat_completeness auto
termination
  by (relation "measure (\<lambda>(env, limit, skipped, s). length (reader env) - m_readerOffset s)") auto

declare skip_for.simps [simp del]

text \<open>
  \<open>IResearchViewBlock::skip\<close> and \<open>IResearchViewUnorderedBlock::skip\<close> have the same
  body, up to the score attribute that \<open>resetIterator\<close> caches.
\<close>

definition skip_scored :: "Env \<Rightarrow> nat \<Rightarrow> ViewBlock \<Rightarrow> nat \<times> ViewBlock" where
  "skip_scored env limit s = skip_for env limit 0 s"

definition skip_unordered :: "Env \<Rightarrow> nat \<Rightarrow> ViewBlock \<Rightarrow> nat \<times> ViewBlock" where
  "skip_unordered env limit s = skip_for env limit 0 s"

subsection \<open>The unordered strategy: IResearchViewUnorderedBlock\<close>

text \<open>
  \<open>readPKs\<close>: up to \<open>limit\<close> keys are read from the iterator; a match whose key is not in
  the column or does not decode takes no place in \<open>keys\<close>. The result is the iterator
  left and the keys in \<open>[keys.begin(), begin)\<close>.
\<close>

fun readPKs ::
  "doc_id list \<Rightarrow> (doc_id \<Rightarrow> bytes option) \<Rightarrow> (bytes \<Rightarrow> DocumentPrimaryKey option) \<Rightarrow> nat \<Rightarrow>
   doc_id list \<times> DocumentPrimaryKey list" where
  "readPKs [] vals rd limit = ([], [])"
| "readPKs (d # ds) vals rd limit =
     (if limit = 0 then (d # ds, [])
      else
        (case vals d of
           None \<Rightarrow> readPKs ds vals rd limit
         | Some key \<Rightarrow>
             (case rd key of
                None \<Rightarrow> readPKs ds vals rd limit
              | Some k \<Rightarrow>
                  (case readPKs ds vals rd (limit - 1) of (it, ks) \<Rightarrow> (it, k # ks)))))"

text \<open>The loop over the keys read: the limit left and the context.\<close>

fun join_keys :: "Env \<Rightarrow> DocumentPrimaryKey list \<Rightarrow> nat \<Rightarrow> ReadContext \<Rightarrow> nat \<times> ReadContext" where
  "join_keys env [] limit ctx = (limit, ctx)"
| "join_keys env (k # ks) limit ctx =
     (case readDocument_pk env k of
        None \<Rightarrow> join_keys env ks limit ctx
      | Some doc \<Rightarrow> join_keys env ks (limit - 1) (finish_row (copyDocument doc ctx)))"

function next_unordered_for ::
  "Env \<Rightarrow> nat \<Rightarrow> ReadContext \<Rightarrow> ViewBlock \<Rightarrow> nat \<times> ReadContext \<times> ViewBlock" where
  "next_unordered_for env limit ctx s =
     (if m_readerOffset s < length (reader env) then
        (case readPKs (case m_itr s of None \<Rightarrow> new_iterator env s | Some it \<Rightarrow> it)
                (pkColumn (reader env ! m_readerOffset s)) (pk_read env) limit of
           (it1, ks) \<Rightarrow>
             (case join_keys env ks limit ctx of
                (limit1, ctx1) \<Rightarrow>
                  if limit1 = 0 then (limit1, ctx1, s\<lparr>m_itr := Some it1, m_keys := ks\<rparr>)
                  else next_unordered_for env limit1 ctx1
                         (s\<lparr>m_readerOffset := m_readerOffset s + 1, m_itr := None,
                            m_keys := ks\<rparr>)))
      else (limit, ctx, s))"
  by pat_completeness auto
termination
  by (relation "measure (\<lambda>(env, limit, ctx, s). length (reader env) - m_readerOffset s)") auto

declare next_unordered_for.simps [simp del]

definition next_unordered :: "Env \<Rightarrow> ReadContext \<Rightarrow> nat \<Rightarrow> ViewBlock \<Rightarrow> bool \<times> ReadContext \<times> ViewBlock" where
  "next_unordered env ctx limit s =
     (case next_unordered_for env limit ctx s of
        (limit1, ctx1, s1) \<Rightarrow> (limit1 = 0, ctx1, s1))"

text \<open>The virtual calls \<open>next(ctx, limit)\<close> and \<open>skip(limit)\<close>.\<close>

definition next_v :: "Env \<Rightarrow> ReadContext \<Rightarrow> nat \<Rightarrow> ViewBlock \<Rightarrow> bool \<times> ReadContext \<times> ViewBlock" where
  "next_v env ctx limit s =
     (case strategy env of
        Scored \<Rightarrow> next_scored env ctx limit s
      | Unordered \<Rightarrow> next_unordered env ctx limit s)"

definition skip_v :: "Env \<Rightarrow> nat \<Rightarrow> ViewBlock \<Rightarrow> nat \<times> ViewBlock" where
  "skip_v env limit s =
     (case strategy env of
        Scored \<Rightarrow> skip_scored env limit s
      | Unordered \<Rightarrow> skip_unordered env limit s)"

subsection \<open>The pull protocol: helpers of ExecutionBlock\<close>

text \<open>
  Modelled from the spec: \<open>ExecutionBlock::getBlock\<close>, which is not in the file.
  Section 6 of the specification, "Upstream pull interface (consumed):
  fetchRows(n) -> (state, batch|null) with states WAITING/HASMORE/DONE", and section 4.3:
  "propagate WAITING unchanged; if upstream yields nothing, mark DONE". A batch that
  arrives is appended to \<open>_buffer\<close>; the boolean tells whether one arrived.
\<close>

definition getBlock :: "nat \<Rightarrow> ViewBlock \<Rightarrow> (ExecutionState \<times> bool) \<times> ViewBlock" where
  "getBlock at_most s =
     (case m_dependencies s of
        [] \<Rightarrow> ((DONE, False), s)
      | answer # rest \<Rightarrow>
          (if fst (answer at_most) = WAITING
           then ((WAITING, False), s\<lparr>m_dependencies := rest\<rparr>)
           else
             (case snd (answer at_most) of
                None \<Rightarrow> ((fst (answer at_most), False), s\<lparr>m_dependencies := rest\<rparr>)
              | Some b \<Rightarrow>
                  ((fst (answer at_most), True),
                   s\<lparr>m_dependencies := rest, m_buffer := m_buffer s @ [b]\<rparr>))))"

text \<open>
  Modelled from the spec: \<open>ExecutionBlock::getHasMoreState\<close>, which is not in the file.
  Section 4.3 of the specification has the states HASMORE and DONE for a call that is
  not blocked, and section 8 lets a batch come with "HASMORE or DONE per upstream state":
  the block is done when it was marked done, or when it holds no input and the upstream
  has reported DONE.
\<close>

definition getHasMoreState :: "ViewBlock \<Rightarrow> ExecutionState \<times> ViewBlock" where
  "getHasMoreState s =
     (if m_done s then (DONE, s)
      else if m_buffer s = [] \<and> m_upstreamState s = DONE then (DONE, s\<lparr>m_done := True\<rparr>)
      else (HASMORE, s))"

subsection \<open>IResearchViewBlockBase::getSome\<close>

type_synonym GetResult = "error + (ExecutionState \<times> AqlItemBlock option)"
type_synonym SkipResult = "error + (ExecutionState \<times> nat)"

text \<open>
  \<open>if (_buffer.empty()) { ... }\<close> of \<open>getSome\<close>: \<open>Some r\<close> when the call ends there
  (a return or a throw), \<open>None\<close> when it goes on.
\<close>

definition getSome_fetch :: "Env \<Rightarrow> nat \<Rightarrow> ViewBlock \<Rightarrow> GetResult option \<times> ViewBlock" where
  "getSome_fetch env at_most s =
     (if m_buffer s = [] then
        (case getBlock (min (DefaultBatchSize env) at_most) s of
           (upstreamRes, s1) \<Rightarrow>
             if fst upstreamRes = WAITING then (Some (Inr (WAITING, None)), s1)
             else
               (let s2 = s1\<lparr>m_upstreamState := fst upstreamRes\<rparr> in
                if \<not> snd upstreamRes then (Some (Inr (DONE, None)), s2\<lparr>m_done := True\<rparr>)
                else
                  (case reset env (s2\<lparr>m_pos := 0\<rparr>) of
                     (Some e, s3) \<Rightarrow> (Some (Inl e), s3)
                   | (None, s3) \<Rightarrow> (None, s3))))
      else (None, s))"

lemma reset_base_hasMore: "m_hasMore (snd (reset_base env s)) = m_hasMore s"
  by (auto simp: reset_base_def Let_def split: list.splits option.splits)

lemma reset_hasMore: "reset env s = (r, s') \<Longrightarrow> m_hasMore s' = m_hasMore s"
  using reset_base_hasMore [of env s]
  by (auto simp: reset_def split: prod.splits option.splits)

lemma getBlock_hasMore: "getBlock n s = (r, s') \<Longrightarrow> m_hasMore s' = m_hasMore s"
  by (auto simp: getBlock_def split: list.splits option.splits if_splits)

lemma getSome_fetch_hasMore: "getSome_fetch env at_most s = (r, s') \<Longrightarrow> m_hasMore s' = m_hasMore s"
  by (auto simp: getSome_fetch_def Let_def split: if_splits prod.splits option.splits
           dest!: reset_hasMore getBlock_hasMore)

text \<open>The inner loop \<open>do { ... } while (needMore)\<close>; \<open>None\<close> when the loop is left.\<close>

function getSome_inner :: "Env \<Rightarrow> nat \<Rightarrow> ViewBlock \<Rightarrow> GetResult option \<times> ViewBlock" where
  "getSome_inner env at_most s =
     (case getSome_fetch env at_most s of
        (Some r, s1) \<Rightarrow> (Some r, s1)
      | (None, s1) \<Rightarrow>
          (case m_buffer s1 of
             [] \<Rightarrow> (Some (Inl TRI_ASSERT_FAILED), s1)
           | cur # rest \<Rightarrow>
               if \<not> m_hasMore s1 then
                 (let s2 = s1\<lparr>m_hasMore := True\<rparr> in
                  if size_blk cur \<le> m_pos s2 + 1
                  then getSome_inner env at_most (s2\<lparr>m_buffer := rest, m_pos := 0\<rparr>)
                  else
                    (case reset env (s2\<lparr>m_pos := m_pos s2 + 1\<rparr>) of
                       (Some e, s3) \<Rightarrow> (Some (Inl e), s3)
                     | (None, s3) \<Rightarrow> getSome_inner env at_most s3))
               else (None, s1)))"
  by pat_completeness auto
termination
proof (relation "measure (\<lambda>(env, at_most, s). if m_hasMore s then 0 else 1)")
  show "wf (measure (\<lambda>(env, at_most, s). if m_hasMore s then 0 else (1::nat)))"
    by simp
next
  fix env at_most s x1 s1 cur rest s2
  assume "(x1, s1) = getSome_fetch env at_most s" and "\<not> m_hasMore s1"
    and "s2 = s1\<lparr>m_hasMore := True\<rparr>"
  then show "((env, at_most, s2\<lparr>m_buffer := rest, m_pos := 0\<rparr>), env, at_most, s)
      \<in> measure (\<lambda>(env, at_most, s). if m_hasMore s then 0 else 1)"
    using getSome_fetch_hasMore [of env at_most s x1 s1] by simp
next
  fix env at_most s x1 s1 cur rest s2 x y s3
  assume "(x1, s1) = getSome_fetch env at_most s" and "\<not> m_hasMore s1"
    and "s2 = s1\<lparr>m_hasMore := True\<rparr>"
    and "(x, s3) = reset env (s2\<lparr>m_pos := m_pos s2 + 1\<rparr>)"
  then show "((env, at_most, s3), env, at_most, s)
      \<in> measure (\<lambda>(env, at_most, s). if m_hasMore s then 0 else 1)"
    using getSome_fetch_hasMore [of env at_most s x1 s1]
      reset_hasMore [of env "s2\<lparr>m_pos := m_pos s2 + 1\<rparr>" x s3] by simp
qed

declare getSome_inner.simps [simp del]

text \<open>
  \<open>_engine->_stats.scannedIndex += static_cast<int64_t>(k)\<close> for a \<open>size_t\<close> \<open>k\<close>: the
  statistic is an \<open>int64_t\<close>, so the sum is taken in two's complement on 64 bits.
\<close>

definition int64_add :: "int \<Rightarrow> nat \<Rightarrow> int" where
  "int64_add x k = (x + int k + 2 ^ 63) mod 2 ^ 64 - 2 ^ 63"

text \<open>The end of \<open>getSome\<close>, after the loops: statistics, \<open>shrink\<close>, \<open>clearRegisters\<close>.\<close>

definition getSome_finish :: "Env \<Rightarrow> nat \<Rightarrow> ReadContext \<Rightarrow> ViewBlock \<Rightarrow> GetResult \<times> ViewBlock" where
  "getSome_finish env at_most ctx s =
     (let s1 = s\<lparr>m_scannedIndex := int64_add (m_scannedIndex s) (pos ctx)\<rparr>;
          r1 = (if pos ctx < at_most then map_option (shrink (pos ctx)) (res ctx) else res ctx);
          r2 = map_option (clearRegisters env) r1
      in (case getHasMoreState s1 of (st, s2) \<Rightarrow> (Inr (st, r2), s2)))"

text \<open>
  One round of the outer loop \<open>do { ... } while (ctx.pos == 0)\<close>: \<open>Inl\<close> when the call
  ends in this round, \<open>Inr\<close> when the loop goes round again.
\<close>

definition getSome_body ::
  "Env \<Rightarrow> nat \<Rightarrow> ReadContext \<Rightarrow> ViewBlock \<Rightarrow> (GetResult \<times> ViewBlock) + (ReadContext \<times> ViewBlock)" where
  "getSome_body env at_most ctx s =
     (case getSome_inner env at_most s of
        (Some r, s1) \<Rightarrow> Inl (r, s1)
      | (None, s1) \<Rightarrow>
          (case m_buffer s1 of
             [] \<Rightarrow> Inl (Inl TRI_ASSERT_FAILED, s1)
           | cur # _ \<Rightarrow>
               (let ctx1 = ctx\<lparr>res := Some (inheritRegisters (nrInputRegisters env) cur (m_pos s1)
                                        (requestBlock at_most (nrOutputRegisters env)))\<rparr>
                in if killed env then Inl (Inl TRI_ERROR_QUERY_KILLED, s1)
                   else if failurePoint env then Inl (Inl TRI_ERROR_DEBUG, s1)
                   else
                     (case next_v env ctx1 at_most s1 of
                        (hm, ctx2, s2) \<Rightarrow>
                          if pos ctx2 = 0 then Inr (ctx2, s2\<lparr>m_hasMore := hm\<rparr>)
                          else Inl (getSome_finish env at_most ctx2 (s2\<lparr>m_hasMore := hm\<rparr>))))))"

text \<open>The outer loop does not end when \<open>at_most = 0\<close>: its result is an option.\<close>

partial_function (option) getSome_loop ::
  "Env \<Rightarrow> nat \<Rightarrow> ReadContext \<Rightarrow> ViewBlock \<Rightarrow> (GetResult \<times> ViewBlock) option" where
  "getSome_loop env at_most ctx s =
     (case getSome_body env at_most ctx s of
        Inl r \<Rightarrow> Some r
      | Inr (ctx1, s1) \<Rightarrow> getSome_loop env at_most ctx1 s1)"

definition getSome :: "Env \<Rightarrow> nat \<Rightarrow> ViewBlock \<Rightarrow> (GetResult \<times> ViewBlock) option" where
  "getSome env at_most s =
     (if m_done s then Some (Inr (DONE, None), s)
      else getSome_loop env at_most \<lparr>curRegs = nrInputRegisters env, res = None, pos = 0\<rparr> s)"

subsection \<open>IResearchViewBlockBase::skipSome\<close>

definition skipSome_done :: "ViewBlock \<Rightarrow> SkipResult \<times> ViewBlock" where
  "skipSome_done s =
     (let s1 = s\<lparr>m_scannedIndex := int64_add (m_scannedIndex s) (m_inflight s)\<rparr>;
          skipped = m_inflight s1
      in (Inr (DONE, skipped), s1\<lparr>m_inflight := 0\<rparr>))"

definition skipSome_fetch :: "Env \<Rightarrow> nat \<Rightarrow> ViewBlock \<Rightarrow> SkipResult option \<times> ViewBlock" where
  "skipSome_fetch env at_most s =
     (if m_buffer s = [] then
        (case getBlock (min (DefaultBatchSize env) at_most) s of
           (upstreamRes, s1) \<Rightarrow>
             if fst upstreamRes = WAITING then (Some (Inr (WAITING, 0)), s1)
             else
               (let s2 = s1\<lparr>m_upstreamState := fst upstreamRes\<rparr> in
                if \<not> snd upstreamRes
                then (case skipSome_done (s2\<lparr>m_done := True\<rparr>) of (r, s3) \<Rightarrow> (Some r, s3))
                else
                  (case reset env (s2\<lparr>m_pos := 0\<rparr>) of
                     (Some e, s3) \<Rightarrow> (Some (Inl e), s3)
                   | (None, s3) \<Rightarrow> (None, s3))))
      else (None, s))"

definition skipSome_finish :: "ViewBlock \<Rightarrow> SkipResult \<times> ViewBlock" where
  "skipSome_finish s =
     (let s1 = s\<lparr>m_scannedIndex := int64_add (m_scannedIndex s) (m_inflight s)\<rparr>;
          skipped = m_inflight s1
      in (case getHasMoreState (s1\<lparr>m_inflight := 0\<rparr>) of
            (st, s2) \<Rightarrow> (Inr (st, skipped), s2)))"

text \<open>One round of \<open>while (_inflight < at_most) { ... }\<close>.\<close>

definition skipSome_body ::
  "Env \<Rightarrow> nat \<Rightarrow> ViewBlock \<Rightarrow> (SkipResult \<times> ViewBlock) + ViewBlock" where
  "skipSome_body env at_most s =
     (case skipSome_fetch env at_most s of
        (Some r, s1) \<Rightarrow> Inl (r, s1)
      | (None, s1) \<Rightarrow>
          (case m_buffer s1 of
             [] \<Rightarrow> Inl (Inl TRI_ASSERT_FAILED, s1)
           | cur # _ \<Rightarrow>
               (case skip_v env (at_most - m_inflight s1) s1 of
                  (n, s2) \<Rightarrow>
                    (let s3 = s2\<lparr>m_inflight := m_inflight s2 + n\<rparr> in
                     if m_inflight s3 < at_most then
                       (if size_blk cur \<le> m_pos s3 + 1
                        then Inr (s3\<lparr>m_buffer := tl (m_buffer s3), m_pos := 0\<rparr>)
                        else
                          (case reset env (s3\<lparr>m_pos := m_pos s3 + 1\<rparr>) of
                             (Some e, s4) \<Rightarrow> Inl (Inl e, s4)
                           | (None, s4) \<Rightarrow> Inr s4))
                     else Inr s3))))"

partial_function (option) skipSome_loop ::
  "Env \<Rightarrow> nat \<Rightarrow> ViewBlock \<Rightarrow> (SkipResult \<times> ViewBlock) option" where
  "skipSome_loop env at_most s =
     (if m_inflight s < at_most then
        (case skipSome_body env at_most s of
           Inl r \<Rightarrow> Some r
         | Inr s1 \<Rightarrow> skipSome_loop env at_most s1)
      else Some (skipSome_finish s))"

definition skipSome :: "Env \<Rightarrow> nat \<Rightarrow> ViewBlock \<Rightarrow> (SkipResult \<times> ViewBlock) option" where
  "skipSome env at_most s =
     (if m_done s then Some (skipSome_done s)
      else skipSome_loop env at_most s)"

declare getSome_loop.simps [code]
declare skipSome_loop.simps [code]

subsection \<open>Construction\<close>

text \<open>
  The constructors: \<open>IResearchViewBlockBase\<close> starts with both volatility flags set, an
  empty prepared filter, nothing in flight and \<open>_hasMore\<close>; the unordered block then
  clears \<open>_volatileSort\<close> and the scored block sets it again.
\<close>

definition new_ViewBlock :: "Env \<Rightarrow> Upstream \<Rightarrow> ViewBlock" where
  "new_ViewBlock env deps =
     \<lparr>m_done = False, m_buffer = [], m_pos = 0, m_upstreamState = HASMORE, m_inflight = 0,
      m_hasMore = True,
      m_volatileSort = (case strategy env of Scored \<Rightarrow> True | Unordered \<Rightarrow> False),
      m_volatileFilter = True, m_filter = EmptyFilter, m_order = [], m_ctx = (None, 0),
      m_readerOffset = 0, m_itr = None, m_keys = [], m_scannedIndex = 0,
      m_dependencies = deps\<rparr>"


section \<open>Example inputs\<close>

text \<open>
  A snapshot with two segments, matching the documents 1, 2, 3 and 4; every key decodes
  to a document of collection 0. \<open>ex_store_full\<close> holds them all, \<open>ex_store_gap\<close> has
  lost document 1.
\<close>

definition ex_segment :: "doc_id list \<Rightarrow> Segment" where
  "ex_segment ds =
     \<lparr>pkColumn = (\<lambda>d. Some [d]),
      execute = (\<lambda>f ord ctx. case f of EmptyFilter \<Rightarrow> [] | Prepared r _ \<Rightarrow> ds)\<rparr>"

definition ex_store_full :: "nat \<Rightarrow> (nat \<Rightarrow> nat option) option" where
  "ex_store_full c = (if c = 0 then Some (\<lambda>r. Some (r + 100)) else None)"

definition ex_store_gap :: "nat \<Rightarrow> (nat \<Rightarrow> nat option) option" where
  "ex_store_gap c = (if c = 0 then Some (\<lambda>r. if r = 1 then None else Some (r + 100)) else None)"

definition ex_env :: "Strategy \<Rightarrow> (nat \<Rightarrow> (nat \<Rightarrow> nat option) option) \<Rightarrow> Env" where
  "ex_env strat store =
     \<lparr>strategy = strat, DefaultBatchSize = 1000, nrInputRegisters = 1, nrOutputRegisters = 3,
      regsToClear = [], killed = False, failurePoint = False, outVariable = 7,
      varInfo = (\<lambda>v. if v = 0 then Some 0 else None), MaxRegisterId = 1000,
      sortCondition = (case strat of Scored \<Rightarrow> [(0, True)] | Unordered \<Rightarrow> []),
      volatility = (False, False),
      FilterFactory_filter = (\<lambda>ctx. Some 0), OrderFactory_scorer = (\<lambda>n ctx. Some n),
      reader = [ex_segment [1, 2, 3], ex_segment [4]],
      pk_read = (\<lambda>b. case b of [d] \<Rightarrow> Some \<lparr>cid = 0, rid = d\<rparr> | _ \<Rightarrow> None),
      collection = store,
      score_to_string = (\<lambda>ord off d i. AqlSlice (d * 10 + i))\<rparr>"

definition ex_block :: AqlItemBlock where
  "ex_block = \<lparr>nrRegs = 1, rows = [[AqlSlice 42]]\<rparr>"

definition ex_ctx :: ReadContext where
  "ex_ctx = \<lparr>curRegs = 1, res = Some (requestBlock 2 3), pos = 0\<rparr>"

definition ex_done_state :: ViewBlock where
  "ex_done_state =
     (let env = ex_env Scored ex_store_full;
          s0 = new_ViewBlock env [\<lambda>n. (HASMORE, Some ex_block), \<lambda>n. (WAITING, None)]
      in case skipSome env 5 s0 of
           None \<Rightarrow> s0
         | Some (r1, s1) \<Rightarrow> (case getSome env 2 s1 of None \<Rightarrow> s1 | Some (r2, s2) \<Rightarrow> s2))"

section \<open>The row context\<close>

text \<open>
  C9: in a register plan whose registers are below \<open>MaxRegisterId\<close>, \<open>getVariableValue\<close>
  throws an internal error exactly when the variable is the output variable of the node
  or has no register; otherwise it returns the register of the current row, cloned and to
  be destroyed by the caller when \<open>doCopy\<close> is set, borrowed and not to be destroyed
  otherwise.
\<close>

theorem getVariableValue_internal_error:
  assumes "\<And>v r. varInfo env v = Some r \<Longrightarrow> r < MaxRegisterId env"
  shows "(getVariableValue env ctx var doCopy = Inl TRI_ERROR_INTERNAL \<longleftrightarrow>
            var_ptr var = outVariable env \<or> varInfo env (var_id var) = None)
         \<and> (var_ptr var \<noteq> outVariable env \<longrightarrow> varInfo env (var_id var) = Some reg \<longrightarrow>
              fst ctx = Some d \<longrightarrow> snd ctx < length (rows d) \<longrightarrow> reg < length (rows d ! snd ctx) \<longrightarrow>
              getVariableValue env ctx var doCopy =
                Inr (if doCopy then Cloned (rows d ! snd ctx ! reg)
                     else Borrowed (rows d ! snd ctx ! reg), doCopy))"
proof -
  have ne: "varInfo env (var_id var) = Some r \<Longrightarrow> r \<noteq> MaxRegisterId env" for r
    using assms [of "var_id var" r] by simp
  show ?thesis
    using ne
    by (auto simp: getVariableValue_def getRegister_def getValueReference_def Let_def
             split: option.splits sum.splits if_splits)
qed

theorem getVariableValue_internal_error_witness:
  "getVariableValue (ex_env Scored ex_store_full) (Some ex_block, 0) \<lparr>var_ptr = 3, var_id = 0\<rparr> True
     = Inr (Cloned (AqlSlice 42), True)
   \<and> getVariableValue (ex_env Scored ex_store_full) (Some ex_block, 0) \<lparr>var_ptr = 3, var_id = 0\<rparr> False
     = Inr (Borrowed (AqlSlice 42), False)
   \<and> getVariableValue (ex_env Scored ex_store_full) (Some ex_block, 0) \<lparr>var_ptr = 7, var_id = 0\<rparr> True
     = Inl TRI_ERROR_INTERNAL
   \<and> getVariableValue (ex_env Scored ex_store_full) (Some ex_block, 0) \<lparr>var_ptr = 3, var_id = 5\<rparr> True
     = Inl TRI_ERROR_INTERNAL"
proof -
  have wf: "\<And>v r. varInfo (ex_env Scored ex_store_full) v = Some r
              \<Longrightarrow> r < MaxRegisterId (ex_env Scored ex_store_full)"
    by (simp add: ex_env_def split: if_splits)
  note t = getVariableValue_internal_error [OF wf, where ctx = "(Some ex_block, 0)" and d = ex_block and reg = 0]
  have a: "getVariableValue (ex_env Scored ex_store_full) (Some ex_block, 0) \<lparr>var_ptr = 3, var_id = 0\<rparr> True
     = Inr (Cloned (AqlSlice 42), True)"
    using t [where var = "\<lparr>var_ptr = 3, var_id = 0\<rparr>" and doCopy = True] by (simp add: ex_env_def ex_block_def)
  have b: "getVariableValue (ex_env Scored ex_store_full) (Some ex_block, 0) \<lparr>var_ptr = 3, var_id = 0\<rparr> False
     = Inr (Borrowed (AqlSlice 42), False)"
    using t [where var = "\<lparr>var_ptr = 3, var_id = 0\<rparr>" and doCopy = False] by (simp add: ex_env_def ex_block_def)
  have c: "getVariableValue (ex_env Scored ex_store_full) (Some ex_block, 0) \<lparr>var_ptr = 7, var_id = 0\<rparr> True
     = Inl TRI_ERROR_INTERNAL"
    using t [where var = "\<lparr>var_ptr = 7, var_id = 0\<rparr>" and doCopy = True] by (simp add: ex_env_def)
  have d: "getVariableValue (ex_env Scored ex_store_full) (Some ex_block, 0) \<lparr>var_ptr = 3, var_id = 5\<rparr> True
     = Inl TRI_ERROR_INTERNAL"
    using t [where var = "\<lparr>var_ptr = 3, var_id = 5\<rparr>" and doCopy = True] by (simp add: ex_env_def)
  from a b c d show ?thesis by simp
qed

section \<open>The scan strategies\<close>

lemma next_scored_while_zero [simp]: "next_scored_while env ord off xs 0 ctx = (xs, 0, ctx)"
  by (cases xs) auto

lemma next_scored_while_exhausted:
  "next_scored_while env ord off xs limit ctx = (it, l, c) \<Longrightarrow> l \<noteq> 0 \<Longrightarrow> it = []"
  by (induction env ord off xs limit ctx rule: next_scored_while.induct)
     (auto split: if_splits option.splits)

lemma next_scored_while_filter:
  "next_scored_while env ord off (filter (\<lambda>x. readDocument_sub env off x \<noteq> None) xs) limit ctx
     = (case next_scored_while env ord off xs limit ctx of
          (it, l, c) \<Rightarrow> (filter (\<lambda>x. readDocument_sub env off x \<noteq> None) it, l, c))"
  by (induction env ord off xs limit ctx rule: next_scored_while.induct)
     (auto split: if_splits option.splits prod.splits)

lemma next_scored_for_skips_head:
  assumes "0 < limit" and "m_readerOffset s < length (reader env)"
    and "(case m_itr s of None \<Rightarrow> new_iterator env s | Some it \<Rightarrow> it) = d # ds"
    and "readDocument_sub env (m_readerOffset s) d = None"
  shows "next_scored_for env limit ctx s = next_scored_for env limit ctx (s\<lparr>m_itr := Some ds\<rparr>)"
  using assms
  by (subst next_scored_for.simps, subst (2) next_scored_for.simps)
     (simp split: prod.splits)

lemma next_scored_for_filter:
  assumes "cur = (case m_itr s of None \<Rightarrow> new_iterator env s | Some it \<Rightarrow> it)"
    and "t = s\<lparr>m_itr := Some (filter (\<lambda>x. readDocument_sub env (m_readerOffset s) x \<noteq> None) cur)\<rparr>"
  shows "fst (next_scored_for env limit ctx t) = fst (next_scored_for env limit ctx s)
       \<and> fst (snd (next_scored_for env limit ctx t)) = fst (snd (next_scored_for env limit ctx s))"
proof (cases "m_readerOffset s < length (reader env)")
  case False
  with assms(2) have "next_scored_for env limit ctx t = (limit, ctx, t)"
    by (subst next_scored_for.simps) simp
  moreover from False have "next_scored_for env limit ctx s = (limit, ctx, s)"
    by (subst next_scored_for.simps) simp
  ultimately show ?thesis by simp
next
  case True
  obtain it1 l1 c1 where w:
    "next_scored_while env (m_order s) (m_readerOffset s) cur limit ctx = (it1, l1, c1)"
    by (cases "next_scored_while env (m_order s) (m_readerOffset s) cur limit ctx")
  from next_scored_while_filter [of env "m_order s" "m_readerOffset s" cur limit ctx] w
  have wf: "next_scored_while env (m_order s) (m_readerOffset s)
              (filter (\<lambda>x. readDocument_sub env (m_readerOffset s) x \<noteq> None) cur) limit ctx
            = (filter (\<lambda>x. readDocument_sub env (m_readerOffset s) x \<noteq> None) it1, l1, c1)"
    by simp
  from w assms(1) have ws: "next_scored_while env (m_order s) (m_readerOffset s)
      (case m_itr s of None \<Rightarrow> new_iterator env s | Some it \<Rightarrow> it) limit ctx = (it1, l1, c1)"
    by simp
  have a: "next_scored_for env limit ctx s
             = (if l1 = 0 then (l1, c1, s\<lparr>m_itr := Some it1\<rparr>)
                else next_scored_for env l1 c1
                       (s\<lparr>m_readerOffset := m_readerOffset s + 1, m_itr := None\<rparr>))"
    using True ws by (subst next_scored_for.simps) simp
  have b: "next_scored_for env limit ctx t
             = (if l1 = 0
                then (l1, c1, s\<lparr>m_itr := Some (filter (\<lambda>x. readDocument_sub env (m_readerOffset s) x \<noteq> None) it1)\<rparr>)
                else next_scored_for env l1 c1
                       (s\<lparr>m_readerOffset := m_readerOffset s + 1, m_itr := None\<rparr>))"
    using True wf assms(2) by (subst next_scored_for.simps) simp
  from a b show ?thesis by simp
qed

text \<open>
  C5: in the scored strategy (\<open>IResearchViewBlock::next\<close>) a match whose document cannot
  be read is passed over: the call is the call on the same iterator without that match,
  so the match takes nothing from the limit, adds no row and writes no register, and the
  scan goes on with the next match of the iterator. When it is the last match of the last
  segment the call returns the read context as it was given, with limit left over. The
  limit left and the read context of a call are those of the call on the iterator without
  any such match.
\<close>

theorem scored_failed_join_skipped:
  assumes "0 < limit" and "m_readerOffset s < length (reader env)"
    and "(case m_itr s of None \<Rightarrow> new_iterator env s | Some it \<Rightarrow> it) = d # ds"
    and "readDocument_sub env (m_readerOffset s) d = None"
  shows "next_scored env ctx limit s = next_scored env ctx limit (s\<lparr>m_itr := Some ds\<rparr>)
       \<and> (strategy env = Scored \<longrightarrow>
            next_v env ctx limit s = next_v env ctx limit (s\<lparr>m_itr := Some ds\<rparr>))
       \<and> (ds = [] \<longrightarrow> m_readerOffset s + 1 = length (reader env) \<longrightarrow>
            next_scored env ctx limit s
              = (False, ctx, s\<lparr>m_readerOffset := m_readerOffset s + 1, m_itr := None\<rparr>))
       \<and> (\<forall>t l c.
            fst (next_scored env c l
                   (t\<lparr>m_itr := Some (filter (\<lambda>x. readDocument_sub env (m_readerOffset t) x \<noteq> None)
                            (case m_itr t of None \<Rightarrow> new_iterator env t | Some it \<Rightarrow> it))\<rparr>))
              = fst (next_scored env c l t)
          \<and> fst (snd (next_scored env c l
                   (t\<lparr>m_itr := Some (filter (\<lambda>x. readDocument_sub env (m_readerOffset t) x \<noteq> None)
                            (case m_itr t of None \<Rightarrow> new_iterator env t | Some it \<Rightarrow> it))\<rparr>)))
              = fst (snd (next_scored env c l t)))"
proof -
  note h = next_scored_for_skips_head [OF assms, of ctx]
  have a: "next_scored env ctx limit s = next_scored env ctx limit (s\<lparr>m_itr := Some ds\<rparr>)"
    using h by (simp add: next_scored_def)
  then have b: "strategy env = Scored \<longrightarrow>
            next_v env ctx limit s = next_v env ctx limit (s\<lparr>m_itr := Some ds\<rparr>)"
    by (simp add: next_v_def)
  have c: "next_scored env ctx limit s
              = (False, ctx, s\<lparr>m_readerOffset := m_readerOffset s + 1, m_itr := None\<rparr>)"
    if "ds = []" "m_readerOffset s + 1 = length (reader env)"
  proof -
    let ?u = "s\<lparr>m_readerOffset := m_readerOffset s + 1, m_itr := None\<rparr>"
    from that(2) have "next_scored_for env limit ctx ?u = (limit, ctx, ?u)"
      by (subst next_scored_for.simps) simp
    with assms(1,2) that(1) have "next_scored_for env limit ctx (s\<lparr>m_itr := Some ds\<rparr>) = (limit, ctx, ?u)"
      by (subst next_scored_for.simps) simp
    with a assms(1) show ?thesis by (simp add: next_scored_def)
  qed
  have d: "fst (next_scored env c l
                   (t\<lparr>m_itr := Some (filter (\<lambda>x. readDocument_sub env (m_readerOffset t) x \<noteq> None)
                            (case m_itr t of None \<Rightarrow> new_iterator env t | Some it \<Rightarrow> it))\<rparr>))
              = fst (next_scored env c l t)
          \<and> fst (snd (next_scored env c l
                   (t\<lparr>m_itr := Some (filter (\<lambda>x. readDocument_sub env (m_readerOffset t) x \<noteq> None)
                            (case m_itr t of None \<Rightarrow> new_iterator env t | Some it \<Rightarrow> it))\<rparr>)))
              = fst (snd (next_scored env c l t))" for t l c
    using next_scored_for_filter [OF refl refl, of env l c t]
    by (simp add: next_scored_def split_beta)
  from a b c d show ?thesis by blast
qed

theorem scored_failed_join_skipped_witness:
  "next_scored (ex_env Scored ex_store_gap) ex_ctx 2
       ((new_ViewBlock (ex_env Scored ex_store_gap) [])\<lparr>m_filter := Prepared 0 []\<rparr>)
     = next_scored (ex_env Scored ex_store_gap) ex_ctx 2
         ((new_ViewBlock (ex_env Scored ex_store_gap) [])
            \<lparr>m_filter := Prepared 0 [], m_itr := Some [2, 3]\<rparr>)
   \<and> fst (next_scored (ex_env Scored ex_store_gap) ex_ctx 2
            ((new_ViewBlock (ex_env Scored ex_store_gap) [])\<lparr>m_filter := Prepared 0 []\<rparr>))
   \<and> fst (snd (next_scored (ex_env Scored ex_store_gap) ex_ctx 2
            ((new_ViewBlock (ex_env Scored ex_store_gap) [])\<lparr>m_filter := Prepared 0 []\<rparr>)))
       = \<lparr>curRegs = 1,
          res = Some \<lparr>nrRegs = 3, rows = [[AqlEmpty, AqlSlice 102, AqlSlice 20],
                                          [AqlEmpty, AqlSlice 103, AqlSlice 30]]\<rparr>,
          pos = 2\<rparr>
   \<and> m_itr (snd (snd (next_scored (ex_env Scored ex_store_gap) ex_ctx 2
            ((new_ViewBlock (ex_env Scored ex_store_gap) [])\<lparr>m_filter := Prepared 0 []\<rparr>))))
       = Some []"
proof -
  let ?env = "ex_env Scored ex_store_gap"
  let ?s = "(new_ViewBlock ?env [])\<lparr>m_filter := Prepared 0 []\<rparr>"
  have h1: "0 < (2::nat)" by simp
  have h2: "m_readerOffset ?s < length (reader ?env)"
    by (simp add: new_ViewBlock_def ex_env_def)
  have h3: "(case m_itr ?s of None \<Rightarrow> new_iterator ?env ?s | Some it \<Rightarrow> it) = 1 # [2, 3]"
    by (simp add: new_ViewBlock_def new_iterator_def ex_env_def ex_segment_def)
  have h4: "readDocument_sub ?env (m_readerOffset ?s) 1 = None"
    by (simp add: readDocument_sub_def new_ViewBlock_def ex_env_def ex_segment_def ex_store_gap_def)
  have e: "fst (next_scored ?env ex_ctx 2 (?s\<lparr>m_itr := Some [2, 3]\<rparr>))"
    "fst (snd (next_scored ?env ex_ctx 2 (?s\<lparr>m_itr := Some [2, 3]\<rparr>)))
       = \<lparr>curRegs = 1,
          res = Some \<lparr>nrRegs = 3, rows = [[AqlEmpty, AqlSlice 102, AqlSlice 20],
                                          [AqlEmpty, AqlSlice 103, AqlSlice 30]]\<rparr>,
          pos = 2\<rparr>"
    "m_itr (snd (snd (next_scored ?env ex_ctx 2 (?s\<lparr>m_itr := Some [2, 3]\<rparr>)))) = Some []"
    by code_simp+
  from scored_failed_join_skipped [OF h1 h2 h3 h4, of ex_ctx]
  have "next_scored ?env ex_ctx 2 ?s = next_scored ?env ex_ctx 2 (?s\<lparr>m_itr := Some [2, 3]\<rparr>)"
    by blast
  with e show ?thesis by simp
qed

lemma readPKs_length:
  "readPKs ds vals rd limit = (it, ks) \<Longrightarrow> length ks \<le> limit \<and> (length ks < limit \<longrightarrow> it = [])"
proof (induction ds vals rd limit arbitrary: it ks rule: readPKs.induct)
  case (1 vals rd limit)
  then show ?case by simp
next
  case (2 d ds vals rd limit)
  show ?case
  proof (cases "limit = 0")
    case True
    with "2.prems" show ?thesis by simp
  next
    case False
    show ?thesis
    proof (cases "vals d")
      case None
      with False "2.prems" "2.IH"(1) show ?thesis by simp
    next
      case (Some key)
      show ?thesis
      proof (cases "rd key")
        case None
        with False Some "2.prems" "2.IH"(2) show ?thesis by simp
      next
        case (Some k)
        obtain it1 ks1 where r: "readPKs ds vals rd (limit - 1) = (it1, ks1)"
          by (cases "readPKs ds vals rd (limit - 1)")
        from "2.IH"(3) [OF False \<open>vals d = Some key\<close> Some r]
        have "length ks1 \<le> limit - 1 \<and> (length ks1 < limit - 1 \<longrightarrow> it1 = [])" .
        moreover from "2.prems" False \<open>vals d = Some key\<close> Some r
        have "it = it1" "ks = k # ks1" by simp_all
        ultimately show ?thesis using False by auto
      qed
    qed
  qed
qed

lemma finish_row_pos: "pos (finish_row c) = pos c + 1"
  by (simp add: finish_row_def Let_def)

lemma copyDocument_pos: "pos (copyDocument doc c) = pos c"
  by (simp add: copyDocument_def ctx_setValue_def)

lemma join_keys_pos_mono: "pos ctx \<le> pos (snd (join_keys env ks limit ctx))"
proof (induction env ks limit ctx rule: join_keys.induct)
  case (1 env limit ctx)
  then show ?case by simp
next
  case (2 env k ks limit ctx)
  show ?case
  proof (cases "readDocument_pk env k")
    case None
    with "2.IH"(1) show ?thesis by simp
  next
    case (Some doc)
    with "2.IH"(2) [OF Some] show ?thesis
      by (simp add: finish_row_pos copyDocument_pos)
  qed
qed

lemma join_keys_budget:
  "length ks \<le> limit \<Longrightarrow>
   fst (join_keys env ks limit ctx) + pos (snd (join_keys env ks limit ctx)) = limit + pos ctx"
proof (induction env ks limit ctx rule: join_keys.induct)
  case (1 env limit ctx)
  then show ?case by simp
next
  case (2 env k ks limit ctx)
  show ?case
  proof (cases "readDocument_pk env k")
    case None
    with "2.IH"(1) "2.prems" show ?thesis by simp
  next
    case (Some doc)
    with "2.IH"(2) [OF Some] "2.prems" show ?thesis
      by (simp add: finish_row_pos copyDocument_pos)
  qed
qed

lemma join_keys_all_ok:
  "\<forall>k \<in> set ks. readDocument_pk env k \<noteq> None \<Longrightarrow>
   fst (join_keys env ks limit ctx) = limit - length ks"
  by (induction env ks limit ctx rule: join_keys.induct) (auto split: option.splits)

lemma next_unordered_for_stays:
  "next_unordered_for env limit ctx s = (0, c, s') \<Longrightarrow> m_readerOffset s < length (reader env) \<Longrightarrow>
   0 < limit \<Longrightarrow> m_readerOffset s' < length (reader env) \<and> m_itr s' \<noteq> None"
proof (induction env limit ctx s rule: next_unordered_for.induct)
  case (1 env limit ctx s)
  obtain it1 ks where r: "readPKs (case m_itr s of None \<Rightarrow> new_iterator env s | Some it \<Rightarrow> it)
                (pkColumn (reader env ! m_readerOffset s)) (pk_read env) limit = (it1, ks)"
    by (cases "readPKs (case m_itr s of None \<Rightarrow> new_iterator env s | Some it \<Rightarrow> it)
                (pkColumn (reader env ! m_readerOffset s)) (pk_read env) limit")
  obtain limit1 ctx1 where j: "join_keys env ks limit ctx = (limit1, ctx1)"
    by (cases "join_keys env ks limit ctx")
  show ?case
  proof (cases "limit1 = 0")
    case True
    with "1.prems" r j show ?thesis
      by (subst (asm) next_unordered_for.simps) auto
  next
    case False
    let ?s1 = "s\<lparr>m_readerOffset := m_readerOffset s + 1, m_itr := None, m_keys := ks\<rparr>"
    from "1.prems" r j False
    have n: "next_unordered_for env limit1 ctx1 ?s1 = (0, c, s')"
      by (subst (asm) next_unordered_for.simps) auto
    have "m_readerOffset ?s1 < length (reader env)"
      using n False by (subst (asm) next_unordered_for.simps) (auto split: if_splits)
    with "1.IH" [OF "1.prems"(2) r [symmetric] j [symmetric] False n] False
    show ?thesis by simp
  qed
qed

text \<open>
  C4: the unordered strategy (\<open>IResearchViewUnorderedBlock::next\<close>) with limit 2 on a
  segment that matches the documents 1, 2 and 3, of which 1 is not in the storage while 3
  is. \<open>readPKs\<close> collects the keys of 1 and 2 and leaves match 3 in the iterator. The key
  of 1 is not read and goes past \<open>--limit\<close>, so the limit left is 1, and the call then
  leaves the segment (\<open>++_readerOffset; _itr.reset()\<close>) although its iterator is not
  exhausted: it returns the documents 2 and 4, stands on the second segment, and the next
  call returns no row, so document 3 is never returned. The scored strategy on the same
  input returns the documents 2 and 3 and stays on the first segment, whose iterator it
  has exhausted.
\<close>

theorem unordered_next_loses_match:
  "readDocument_sub (ex_env Unordered ex_store_gap) 0 3 = Some 103
   \<and> readPKs [1, 2, 3] (pkColumn (reader (ex_env Unordered ex_store_gap) ! 0))
       (pk_read (ex_env Unordered ex_store_gap)) 2
     = ([3], [\<lparr>cid = 0, rid = 1\<rparr>, \<lparr>cid = 0, rid = 2\<rparr>])
   \<and> fst (join_keys (ex_env Unordered ex_store_gap) [\<lparr>cid = 0, rid = 1\<rparr>, \<lparr>cid = 0, rid = 2\<rparr>] 2 ex_ctx) = 1
   \<and> fst (next_unordered (ex_env Unordered ex_store_gap) ex_ctx 2
            ((new_ViewBlock (ex_env Unordered ex_store_gap) [])\<lparr>m_filter := Prepared 0 []\<rparr>))
   \<and> res (fst (snd (next_unordered (ex_env Unordered ex_store_gap) ex_ctx 2
            ((new_ViewBlock (ex_env Unordered ex_store_gap) [])\<lparr>m_filter := Prepared 0 []\<rparr>))))
       = Some \<lparr>nrRegs = 3, rows = [[AqlEmpty, AqlSlice 102, AqlEmpty],
                                   [AqlEmpty, AqlSlice 104, AqlEmpty]]\<rparr>
   \<and> m_readerOffset (snd (snd (next_unordered (ex_env Unordered ex_store_gap) ex_ctx 2
            ((new_ViewBlock (ex_env Unordered ex_store_gap) [])\<lparr>m_filter := Prepared 0 []\<rparr>)))) = 1
   \<and> pos (fst (snd (next_unordered (ex_env Unordered ex_store_gap) ex_ctx 2
            (snd (snd (next_unordered (ex_env Unordered ex_store_gap) ex_ctx 2
               ((new_ViewBlock (ex_env Unordered ex_store_gap) [])\<lparr>m_filter := Prepared 0 []\<rparr>))))))) = 0
   \<and> res (fst (snd (next_scored (ex_env Scored ex_store_gap) ex_ctx 2
            ((new_ViewBlock (ex_env Scored ex_store_gap) [])\<lparr>m_filter := Prepared 0 []\<rparr>))))
       = Some \<lparr>nrRegs = 3, rows = [[AqlEmpty, AqlSlice 102, AqlSlice 20],
                                   [AqlEmpty, AqlSlice 103, AqlSlice 30]]\<rparr>
   \<and> m_readerOffset (snd (snd (next_scored (ex_env Scored ex_store_gap) ex_ctx 2
            ((new_ViewBlock (ex_env Scored ex_store_gap) [])\<lparr>m_filter := Prepared 0 []\<rparr>)))) = 0
   \<and> m_itr (snd (snd (next_scored (ex_env Scored ex_store_gap) ex_ctx 2
            ((new_ViewBlock (ex_env Scored ex_store_gap) [])\<lparr>m_filter := Prepared 0 []\<rparr>)))) = Some []"
  by code_simp

section \<open>Skipping when done\<close>

lemma int64_add_again: "int64_add (int64_add x k) 0 = int64_add x k"
  by (simp add: int64_add_def)

lemma int64_add_in_range:
  "- (2 ^ 63) \<le> x + int k \<Longrightarrow> x + int k < 2 ^ 63 \<Longrightarrow> int64_add x k = x + int k"
  by (simp add: int64_add_def)

text \<open>
  C10: \<open>skipSome\<close> on a block that is done returns DONE with the count in flight, adds
  the count to the statistics (an \<open>int64_t\<close>: the sum is the exact one whenever it fits in
  64 bits) and sets the count in flight to zero, so that the next call returns zero and
  leaves the statistics as they are.
\<close>

theorem skipSome_done_reports_inflight_once:
  assumes "m_done s"
  shows "skipSome env n s
           = Some (Inr (DONE, m_inflight s),
                   s\<lparr>m_scannedIndex := int64_add (m_scannedIndex s) (m_inflight s), m_inflight := 0\<rparr>)
       \<and> skipSome env n' (s\<lparr>m_scannedIndex := int64_add (m_scannedIndex s) (m_inflight s),
                             m_inflight := 0\<rparr>)
           = Some (Inr (DONE, 0),
                   s\<lparr>m_scannedIndex := int64_add (m_scannedIndex s) (m_inflight s), m_inflight := 0\<rparr>)
       \<and> (- (2 ^ 63) \<le> m_scannedIndex s + int (m_inflight s)
            \<and> m_scannedIndex s + int (m_inflight s) < 2 ^ 63
          \<longrightarrow> int64_add (m_scannedIndex s) (m_inflight s) = m_scannedIndex s + int (m_inflight s))"
  using assms
  by (simp add: skipSome_def skipSome_done_def Let_def int64_add_again int64_add_in_range)

theorem skipSome_done_reports_inflight_once_witness:
  "m_done ex_done_state \<and> m_inflight ex_done_state = 4
   \<and> fst (the (skipSome (ex_env Scored ex_store_full) 5 ex_done_state)) = Inr (DONE, 4)
   \<and> m_inflight (snd (the (skipSome (ex_env Scored ex_store_full) 5 ex_done_state))) = 0
   \<and> m_scannedIndex (snd (the (skipSome (ex_env Scored ex_store_full) 5 ex_done_state)))
       = m_scannedIndex ex_done_state + 4"
proof -
  have d: "m_done ex_done_state" by code_simp
  have i: "m_inflight ex_done_state = 4" by code_simp
  have x: "m_scannedIndex ex_done_state = 0" by code_simp
  from skipSome_done_reports_inflight_once [OF d, of "ex_env Scored ex_store_full" 5 5] d i x
  show ?thesis by simp
qed

section \<open>What the parts of a call change\<close>

text \<open>
  The members in three groups: those the pull protocol works on, the compiled predicate
  with its row context, and the read cursor (\<open>_readerOffset\<close>, \<open>_itr\<close>, \<open>_keys\<close>).
\<close>

definition ctl_of ::
  "ViewBlock \<Rightarrow> bool \<times> AqlItemBlock list \<times> nat \<times> ExecutionState \<times> nat \<times> bool \<times> int \<times> Upstream" where
  "ctl_of s = (m_done s, m_buffer s, m_pos s, m_upstreamState s, m_inflight s, m_hasMore s,
               m_scannedIndex s, m_dependencies s)"

definition pred_of :: "ViewBlock \<Rightarrow> bool \<times> bool \<times> PreparedFilter \<times> Order \<times> RowCtx" where
  "pred_of s = (m_volatileSort s, m_volatileFilter s, m_filter s, m_order s, m_ctx s)"

lemma new_iterator_cong:
  "pred_of s' = pred_of s \<Longrightarrow> m_readerOffset s' = m_readerOffset s \<Longrightarrow>
   new_iterator env s' = new_iterator env s"
  by (simp add: new_iterator_def pred_of_def)

lemma skip_for_frame:
  "skip_for env limit skipped s = (k, s') \<Longrightarrow>
   ctl_of s' = ctl_of s \<and> pred_of s' = pred_of s \<and> m_keys s' = m_keys s"
proof (induction env limit skipped s arbitrary: k s' rule: skip_for.induct)
  case (1 env limit skipped s)
  show ?case
  proof (cases "m_readerOffset s < length (reader env)")
    case False
    with "1.prems" show ?thesis
      by (subst (asm) skip_for.simps) simp
  next
    case True
    obtain it1 limit1 skipped1 where w:
      "skip_while (case m_itr s of None \<Rightarrow> new_iterator env s | Some it \<Rightarrow> it) limit skipped
         = (it1, limit1, skipped1)"
      by (cases "skip_while (case m_itr s of None \<Rightarrow> new_iterator env s | Some it \<Rightarrow> it) limit skipped")
    show ?thesis
    proof (cases "limit1 = 0")
      case z: True
      with True w "1.prems" show ?thesis
        by (subst (asm) skip_for.simps) (auto simp: ctl_of_def pred_of_def)
    next
      case nz: False
      from True w nz "1.prems"
      have "skip_for env limit1 skipped1 (s\<lparr>m_readerOffset := m_readerOffset s + 1, m_itr := None\<rparr>) = (k, s')"
        by (subst (asm) skip_for.simps) simp
      from "1.IH" [OF True w [symmetric] refl nz this]
      show ?thesis by (simp add: ctl_of_def pred_of_def)
    qed
  qed
qed

lemma next_scored_for_frame:
  "next_scored_for env limit ctx s = (l, c, s') \<Longrightarrow>
   ctl_of s' = ctl_of s \<and> pred_of s' = pred_of s \<and> m_keys s' = m_keys s"
proof (induction env limit ctx s arbitrary: l c s' rule: next_scored_for.induct)
  case (1 env limit ctx s)
  show ?case
  proof (cases "m_readerOffset s < length (reader env)")
    case False
    with "1.prems" show ?thesis
      by (subst (asm) next_scored_for.simps) simp
  next
    case True
    obtain it1 limit1 ctx1 where w:
      "next_scored_while env (m_order s) (m_readerOffset s)
         (case m_itr s of None \<Rightarrow> new_iterator env s | Some it \<Rightarrow> it) limit ctx
         = (it1, limit1, ctx1)"
      by (cases "next_scored_while env (m_order s) (m_readerOffset s)
         (case m_itr s of None \<Rightarrow> new_iterator env s | Some it \<Rightarrow> it) limit ctx")
    show ?thesis
    proof (cases "limit1 = 0")
      case z: True
      with True w "1.prems" show ?thesis
        by (subst (asm) next_scored_for.simps) (auto simp: ctl_of_def pred_of_def)
    next
      case nz: False
      from True w nz "1.prems"
      have "next_scored_for env limit1 ctx1 (s\<lparr>m_readerOffset := m_readerOffset s + 1, m_itr := None\<rparr>) = (l, c, s')"
        by (subst (asm) next_scored_for.simps) simp
      from "1.IH" [OF True w [symmetric] refl nz this]
      show ?thesis by (simp add: ctl_of_def pred_of_def)
    qed
  qed
qed

lemma next_unordered_for_frame:
  "next_unordered_for env limit ctx s = (l, c, s') \<Longrightarrow>
   ctl_of s' = ctl_of s \<and> pred_of s' = pred_of s"
proof (induction env limit ctx s arbitrary: l c s' rule: next_unordered_for.induct)
  case (1 env limit ctx s)
  show ?case
  proof (cases "m_readerOffset s < length (reader env)")
    case False
    with "1.prems" show ?thesis
      by (subst (asm) next_unordered_for.simps) simp
  next
    case True
    obtain it1 ks where r:
      "readPKs (case m_itr s of None \<Rightarrow> new_iterator env s | Some it \<Rightarrow> it)
         (pkColumn (reader env ! m_readerOffset s)) (pk_read env) limit = (it1, ks)"
      by (cases "readPKs (case m_itr s of None \<Rightarrow> new_iterator env s | Some it \<Rightarrow> it)
         (pkColumn (reader env ! m_readerOffset s)) (pk_read env) limit")
    obtain limit1 ctx1 where j: "join_keys env ks limit ctx = (limit1, ctx1)"
      by (cases "join_keys env ks limit ctx")
    show ?thesis
    proof (cases "limit1 = 0")
      case z: True
      with True r j "1.prems" show ?thesis
        by (subst (asm) next_unordered_for.simps) (auto simp: ctl_of_def pred_of_def)
    next
      case nz: False
      from True r j nz "1.prems"
      have "next_unordered_for env limit1 ctx1
              (s\<lparr>m_readerOffset := m_readerOffset s + 1, m_itr := None, m_keys := ks\<rparr>) = (l, c, s')"
        by (subst (asm) next_unordered_for.simps) simp
      from "1.IH" [OF True r [symmetric] j [symmetric] nz this]
      show ?thesis by (simp add: ctl_of_def pred_of_def)
    qed
  qed
qed

lemma next_v_frame:
  "next_v env ctx limit s = (hm, c, s') \<Longrightarrow> ctl_of s' = ctl_of s \<and> pred_of s' = pred_of s"
  by (auto simp: next_v_def next_scored_def next_unordered_def
           split: Strategy.splits prod.splits
           dest: next_scored_for_frame next_unordered_for_frame)

lemma skip_v_frame:
  "skip_v env limit s = (k, s') \<Longrightarrow> ctl_of s' = ctl_of s \<and> pred_of s' = pred_of s \<and> m_keys s' = m_keys s"
  by (auto simp: skip_v_def skip_scored_def skip_unordered_def
           split: Strategy.splits dest: skip_for_frame)

lemma reset_base_frame: "reset_base env s = (r, s') \<Longrightarrow> ctl_of s' = ctl_of s"
  by (auto simp: reset_base_def ctl_of_def Let_def split: list.splits option.splits if_splits)

lemma reset_frame: "reset env s = (r, s') \<Longrightarrow> ctl_of s' = ctl_of s"
  by (auto simp: reset_def ctl_of_def split: prod.splits option.splits dest!: reset_base_frame)

subsection \<open>Rows written and limit spent\<close>

lemma ctx_setValue_simps [simp]:
  "pos (ctx_setValue reg v c) = pos c"
  "curRegs (ctx_setValue reg v c) = curRegs c"
  "map_option size_blk (res (ctx_setValue reg v c)) = map_option size_blk (res c)"
  by (cases "res c"; simp add: ctx_setValue_def setValue_def size_blk_def)+

lemma copyDocument_simps [simp]:
  "pos (copyDocument doc c) = pos c"
  "curRegs (copyDocument doc c) = curRegs c"
  "map_option size_blk (res (copyDocument doc c)) = map_option size_blk (res c)"
  by (simp_all add: copyDocument_def)

lemma finish_row_simps [simp]:
  "pos (finish_row c) = pos c + 1"
  "curRegs (finish_row c) = curRegs c"
  "map_option size_blk (res (finish_row c)) = map_option size_blk (res c)"
  by (cases "res c"; simp add: finish_row_def Let_def copyValuesFromFirstRow_def size_blk_def)+

lemma copy_scores_simps [simp]:
  "pos (copy_scores env ord off d is c) = pos c"
  "curRegs (copy_scores env ord off d is c) = curRegs c"
  "map_option size_blk (res (copy_scores env ord off d is c)) = map_option size_blk (res c)"
  by (induction env ord off d "is" c rule: copy_scores.induct) simp_all

lemma next_scored_while_budget:
  "next_scored_while env ord off xs limit ctx = (it, l, c) \<Longrightarrow>
   l \<le> limit \<and> pos c = pos ctx + (limit - l)
   \<and> map_option size_blk (res c) = map_option size_blk (res ctx)"
  by (induction env ord off xs limit ctx rule: next_scored_while.induct)
     (auto split: if_splits option.splits)

lemma next_scored_for_budget:
  "next_scored_for env limit ctx s = (l, c, s') \<Longrightarrow>
   l \<le> limit \<and> pos c = pos ctx + (limit - l)
   \<and> map_option size_blk (res c) = map_option size_blk (res ctx)"
proof (induction env limit ctx s arbitrary: l c s' rule: next_scored_for.induct)
  case (1 env limit ctx s)
  show ?case
  proof (cases "m_readerOffset s < length (reader env)")
    case False
    with "1.prems" show ?thesis
      by (subst (asm) next_scored_for.simps) simp
  next
    case True
    obtain it1 limit1 ctx1 where w:
      "next_scored_while env (m_order s) (m_readerOffset s)
         (case m_itr s of None \<Rightarrow> new_iterator env s | Some it \<Rightarrow> it) limit ctx
         = (it1, limit1, ctx1)"
      by (cases "next_scored_while env (m_order s) (m_readerOffset s)
         (case m_itr s of None \<Rightarrow> new_iterator env s | Some it \<Rightarrow> it) limit ctx")
    note b = next_scored_while_budget [OF w]
    show ?thesis
    proof (cases "limit1 = 0")
      case z: True
      with True w "1.prems" b show ?thesis
        by (subst (asm) next_scored_for.simps) auto
    next
      case nz: False
      from True w nz "1.prems"
      have "next_scored_for env limit1 ctx1 (s\<lparr>m_readerOffset := m_readerOffset s + 1, m_itr := None\<rparr>) = (l, c, s')"
        by (subst (asm) next_scored_for.simps) simp
      from "1.IH" [OF True w [symmetric] refl nz this] b
      show ?thesis by simp
    qed
  qed
qed

lemma join_keys_rows:
  "map_option size_blk (res (snd (join_keys env ks limit ctx))) = map_option size_blk (res ctx)"
  by (induction env ks limit ctx rule: join_keys.induct) (auto split: option.splits)

lemma next_unordered_for_budget:
  "next_unordered_for env limit ctx s = (l, c, s') \<Longrightarrow>
   l \<le> limit \<and> pos c = pos ctx + (limit - l)
   \<and> map_option size_blk (res c) = map_option size_blk (res ctx)"
proof (induction env limit ctx s arbitrary: l c s' rule: next_unordered_for.induct)
  case (1 env limit ctx s)
  show ?case
  proof (cases "m_readerOffset s < length (reader env)")
    case False
    with "1.prems" show ?thesis
      by (subst (asm) next_unordered_for.simps) simp
  next
    case True
    obtain it1 ks where r:
      "readPKs (case m_itr s of None \<Rightarrow> new_iterator env s | Some it \<Rightarrow> it)
         (pkColumn (reader env ! m_readerOffset s)) (pk_read env) limit = (it1, ks)"
      by (cases "readPKs (case m_itr s of None \<Rightarrow> new_iterator env s | Some it \<Rightarrow> it)
         (pkColumn (reader env ! m_readerOffset s)) (pk_read env) limit")
    obtain limit1 ctx1 where j: "join_keys env ks limit ctx = (limit1, ctx1)"
      by (cases "join_keys env ks limit ctx")
    from readPKs_length [OF r] have len: "length ks \<le> limit" by simp
    from join_keys_budget [OF len, of env ctx] join_keys_pos_mono [of ctx env ks limit]
      join_keys_rows [of env ks limit ctx] j
    have b: "limit1 \<le> limit" "pos ctx1 = pos ctx + (limit - limit1)"
      "map_option size_blk (res ctx1) = map_option size_blk (res ctx)" by simp_all
    show ?thesis
    proof (cases "limit1 = 0")
      case z: True
      with True r j "1.prems" b show ?thesis
        by (subst (asm) next_unordered_for.simps) auto
    next
      case nz: False
      from True r j nz "1.prems"
      have "next_unordered_for env limit1 ctx1
              (s\<lparr>m_readerOffset := m_readerOffset s + 1, m_itr := None, m_keys := ks\<rparr>) = (l, c, s')"
        by (subst (asm) next_unordered_for.simps) simp
      from "1.IH" [OF True r [symmetric] j [symmetric] nz this] b
      show ?thesis by simp
    qed
  qed
qed

lemma next_v_budget:
  assumes "next_v env ctx limit s = (hm, c, s')"
  shows "map_option size_blk (res c) = map_option size_blk (res ctx)"
    and "pos ctx \<le> pos c" and "pos c \<le> limit + pos ctx"
    and "hm \<longleftrightarrow> pos c = limit + pos ctx"
proof -
  obtain l where "l \<le> limit \<and> pos c = pos ctx + (limit - l)
      \<and> map_option size_blk (res c) = map_option size_blk (res ctx)"
    and "hm \<longleftrightarrow> l = 0"
    using assms
    by (auto simp: next_v_def next_scored_def next_unordered_def
             split: Strategy.splits prod.splits
             dest: next_scored_for_budget next_unordered_for_budget)
  then show "map_option size_blk (res c) = map_option size_blk (res ctx)"
    and "pos ctx \<le> pos c" and "pos c \<le> limit + pos ctx"
    and "hm \<longleftrightarrow> pos c = limit + pos ctx"
    by auto
qed

subsection \<open>The loops of getSome\<close>

lemma getBlock_cases:
  assumes "getBlock n s = ((st, got), s')"
  shows "(m_dependencies s = [] \<and> st = DONE \<and> \<not> got \<and> s' = s)
       \<or> (\<exists>a rest. m_dependencies s = a # rest \<and> st = fst (a n)
             \<and> (if st \<noteq> WAITING \<and> snd (a n) \<noteq> None
                 then got \<and> s' = s\<lparr>m_dependencies := rest, m_buffer := m_buffer s @ [the (snd (a n))]\<rparr>
                 else \<not> got \<and> s' = s\<lparr>m_dependencies := rest\<rparr>))"
  using assms
  by (auto simp: getBlock_def split: list.splits if_splits option.splits)

definition M3 :: "(ViewBlock \<times> ViewBlock) set" where
  "M3 = measures [\<lambda>s. length (m_dependencies s), \<lambda>s. length (m_buffer s),
                  \<lambda>s. (case m_buffer s of [] \<Rightarrow> 0 | b # _ \<Rightarrow> size_blk b - m_pos s)]"

definition M4 :: "(ViewBlock \<times> ViewBlock) set" where
  "M4 = measures [\<lambda>s. length (m_dependencies s), \<lambda>s. length (m_buffer s),
                  \<lambda>s. (case m_buffer s of [] \<Rightarrow> 0 | b # _ \<Rightarrow> size_blk b - m_pos s),
                  \<lambda>s. if m_hasMore s then 1 else 0]"

lemma M3_ctl: "ctl_of s1 = ctl_of s \<Longrightarrow> (s1, t) \<in> M3 \<longleftrightarrow> (s, t) \<in> M3"
  by (simp add: M3_def ctl_of_def split: list.splits)

lemma getSome_fetch_cases:
  assumes "getSome_fetch env n s = (r, s')"
  shows "(m_buffer s \<noteq> [] \<and> r = None \<and> s' = s)
       \<or> (m_buffer s = [] \<and> (\<exists>x. r = Some x \<and> (x = Inr (WAITING, None) \<or> x = Inr (DONE, None) \<or> (\<exists>e. x = Inl e))))
       \<or> (m_buffer s = [] \<and> r = None \<and> m_buffer s' \<noteq> [] \<and> m_hasMore s' = m_hasMore s
            \<and> length (m_dependencies s') < length (m_dependencies s))"
proof (cases "m_buffer s = []")
  case False
  with assms show ?thesis by (simp add: getSome_fetch_def)
next
  case True
  obtain st got s1 where g: "getBlock (min (DefaultBatchSize env) n) s = ((st, got), s1)"
    by (cases "getBlock (min (DefaultBatchSize env) n) s") auto
  show ?thesis
  proof (cases "st = WAITING")
    case True
    with assms \<open>m_buffer s = []\<close> g show ?thesis
      by (auto simp: getSome_fetch_def)
  next
    case nw: False
    show ?thesis
    proof (cases got)
      case False
      with nw assms \<open>m_buffer s = []\<close> g show ?thesis
        by (auto simp: getSome_fetch_def Let_def)
    next
      case True
      with nw getBlock_cases [OF g] obtain a rest where
        d: "m_dependencies s = a # rest"
        and s1: "s1 = s\<lparr>m_dependencies := rest, m_buffer := m_buffer s @ [the (snd (a (min (DefaultBatchSize env) n)))]\<rparr>"
        by (auto split: if_splits)
      obtain e s3 where rs: "reset env (s1\<lparr>m_upstreamState := st, m_pos := 0\<rparr>) = (e, s3)"
        by (cases "reset env (s1\<lparr>m_upstreamState := st, m_pos := 0\<rparr>)")
      from reset_frame [OF rs] s1 d
      have "m_buffer s3 \<noteq> []" "m_hasMore s3 = m_hasMore s"
        "length (m_dependencies s3) < length (m_dependencies s)"
        by (simp_all add: ctl_of_def)
      with assms \<open>m_buffer s = []\<close> g nw True rs show ?thesis
        by (cases e) (auto simp: getSome_fetch_def Let_def)
    qed
  qed
qed

lemma wf_M3 [simp]: "wf M3" and wf_M4 [simp]: "wf M4"
  by (simp_all add: M3_def M4_def)

lemma M3_trans: "(a, b) \<in> M3 \<Longrightarrow> (b, c) \<in> M3 \<Longrightarrow> (a, c) \<in> M3"
  by (auto simp: M3_def)

lemma M3_deps: "length (m_dependencies a) < length (m_dependencies b) \<Longrightarrow> (a, b) \<in> M3"
  by (simp add: M3_def)

lemma M3_M4: "(a, b) \<in> M3 \<Longrightarrow> (a, b) \<in> M4"
  by (auto simp: M3_def M4_def)

definition batch_ok :: "GetResult \<Rightarrow> bool" where
  "batch_ok r =
     (case r of
        Inl e \<Rightarrow> True
      | Inr (st, None) \<Rightarrow> st = WAITING \<or> st = DONE
      | Inr (st, Some blk) \<Rightarrow> 0 < size_blk blk)"

lemma getSome_inner_cases:
  "getSome_inner env n s = (r, s') \<Longrightarrow>
     (\<exists>x. r = Some x \<and> (x = Inr (WAITING, None) \<or> x = Inr (DONE, None) \<or> (\<exists>e. x = Inl e)))
   \<or> (r = None \<and> m_buffer s' \<noteq> [] \<and> m_hasMore s'
        \<and> (if m_hasMore s \<and> m_buffer s \<noteq> [] then s' = s else (s', s) \<in> M3))"
proof (induction env n s arbitrary: r s' rule: getSome_inner.induct)
  case (1 env n s)
  obtain r1 s1 where f: "getSome_fetch env n s = (r1, s1)"
    by (cases "getSome_fetch env n s")
  note fc = getSome_fetch_cases [OF f]
  show ?case
  proof (cases r1)
    case (Some x)
    with f fc "1.prems" show ?thesis
      by (subst (asm) getSome_inner.simps) auto
  next
    case None
    with fc have b1: "m_buffer s1 \<noteq> []" and hm: "m_hasMore s1 = m_hasMore s"
      and rel: "(m_buffer s \<noteq> [] \<and> s1 = s) \<or> (m_buffer s = [] \<and> (s1, s) \<in> M3)"
      by (auto intro: M3_deps)
    then obtain cur rest where b: "m_buffer s1 = cur # rest"
      by (cases "m_buffer s1") auto
    show ?thesis
    proof (cases "m_hasMore s1")
      case True
      with f None b "1.prems" have "r = None" "s' = s1"
        by (subst (asm) getSome_inner.simps, simp)+
      with True b1 hm rel show ?thesis by auto
    next
      case nhm: False
      let ?s2 = "s1\<lparr>m_hasMore := True\<rparr>"
      show ?thesis
      proof (cases "size_blk cur \<le> m_pos s1 + 1")
        case True
        let ?t = "?s2\<lparr>m_buffer := rest, m_pos := 0\<rparr>"
        from f None b nhm True "1.prems"
        have rec: "getSome_inner env n ?t = (r, s')"
          by (subst (asm) getSome_inner.simps) simp
        have t1: "(?t, s1) \<in> M3" using b by (simp add: M3_def)
        have ts: "(?t, s) \<in> M3" using rel t1 by (auto intro: M3_trans)
        from "1.IH"(1) [OF f [symmetric] None b _ refl _ rec] nhm True
        have "(\<exists>x. r = Some x \<and> (x = Inr (WAITING, None) \<or> x = Inr (DONE, None) \<or> (\<exists>e. x = Inl e)))
             \<or> (r = None \<and> m_buffer s' \<noteq> [] \<and> m_hasMore s'
                  \<and> (if m_hasMore ?t \<and> m_buffer ?t \<noteq> [] then s' = ?t else (s', ?t) \<in> M3))"
          by simp
        with ts nhm hm show ?thesis by (auto intro: M3_trans split: if_splits)
      next
        case False
        let ?u = "?s2\<lparr>m_pos := m_pos ?s2 + 1\<rparr>"
        obtain e s3 where rs: "reset env ?u = (e, s3)" by (cases "reset env ?u")
        from reset_frame [OF rs] have c3: "ctl_of s3 = ctl_of ?u" .
        show ?thesis
        proof (cases e)
          case (Some err)
          with f None b nhm False rs "1.prems" show ?thesis
            by (subst (asm) getSome_inner.simps) auto
        next
          case eN: None
          from f \<open>r1 = None\<close> b nhm False rs eN "1.prems"
          have rec: "getSome_inner env n s3 = (r, s')"
            by (subst (asm) getSome_inner.simps) simp
          have u1: "(?u, s1) \<in> M3" using b False by (simp add: M3_def)
          have "(s3, s1) \<in> M3" using u1 M3_ctl [OF c3] by simp
          with rel have s3s: "(s3, s) \<in> M3" by (auto intro: M3_trans)
          have h3: "m_hasMore s3" "m_buffer s3 \<noteq> []"
            using c3 b by (simp_all add: ctl_of_def)
          from "1.IH"(2) [OF f [symmetric] \<open>r1 = None\<close> b _ refl _ _ _ rec] nhm False rs eN
          have "(\<exists>x. r = Some x \<and> (x = Inr (WAITING, None) \<or> x = Inr (DONE, None) \<or> (\<exists>e. x = Inl e)))
             \<or> (r = None \<and> m_buffer s' \<noteq> [] \<and> m_hasMore s'
                  \<and> (if m_hasMore s3 \<and> m_buffer s3 \<noteq> [] then s' = s3 else (s', s3) \<in> M3))"
            by simp
          with h3 s3s nhm hm show ?thesis by (auto split: if_splits)
        qed
      qed
    qed
  qed
qed

lemma size_requestBlock [simp]: "size_blk (requestBlock n k) = n"
  by (simp add: requestBlock_def size_blk_def)

lemma size_inheritRegisters [simp]: "size_blk (inheritRegisters k src row dst) = size_blk dst"
  by (simp add: inheritRegisters_def size_blk_def)

lemma size_shrink [simp]: "size_blk (shrink k b) = min k (size_blk b)"
  by (simp add: shrink_def size_blk_def min.commute)

lemma size_clearRegisters [simp]: "size_blk (clearRegisters env b) = size_blk b"
  by (simp add: clearRegisters_def size_blk_def)

lemma getHasMoreState_cases:
  "getHasMoreState s = (st, s') \<Longrightarrow>
   (st = DONE \<or> st = HASMORE) \<and> (m_buffer s \<noteq> [] \<longrightarrow> \<not> m_done s \<longrightarrow> st = HASMORE \<and> s' = s)"
  by (auto simp: getHasMoreState_def split: if_splits)

lemma getSome_finish_ok:
  assumes "getSome_finish env n ctx s = (r, s')" and "res ctx = Some b" and "size_blk b = n"
    and "0 < pos ctx" and "0 < n"
  shows "batch_ok r"
proof -
  obtain st s2 where g: "getHasMoreState (s\<lparr>m_scannedIndex := int64_add (m_scannedIndex s) (pos ctx)\<rparr>) = (st, s2)"
    by (cases "getHasMoreState (s\<lparr>m_scannedIndex := int64_add (m_scannedIndex s) (pos ctx)\<rparr>)")
  with assms show ?thesis
    by (auto simp: getSome_finish_def Let_def batch_ok_def)
qed

lemma getSome_body_cases:
  assumes "0 < n"
  shows "case getSome_body env n ctx s of
           Inl (r, s') \<Rightarrow> batch_ok r
         | Inr (ctx', s') \<Rightarrow> (s', s) \<in> M4"
proof -
  obtain r1 s1 where i: "getSome_inner env n s = (r1, s1)"
    by (cases "getSome_inner env n s")
  note ic = getSome_inner_cases [OF i]
  show ?thesis
  proof (cases r1)
    case (Some x)
    with i ic show ?thesis
      by (auto simp: getSome_body_def batch_ok_def)
  next
    case None
    with ic have b1: "m_buffer s1 \<noteq> []" and hm1: "m_hasMore s1"
      and rel: "if m_hasMore s \<and> m_buffer s \<noteq> [] then s1 = s else (s1, s) \<in> M3"
      by auto
    then obtain cur rest where b: "m_buffer s1 = cur # rest"
      by (cases "m_buffer s1") auto
    let ?ctx1 = "ctx\<lparr>res := Some (inheritRegisters (nrInputRegisters env) cur (m_pos s1)
                                  (requestBlock n (nrOutputRegisters env)))\<rparr>"
    show ?thesis
    proof (cases "killed env \<or> failurePoint env")
      case True
      with i None b show ?thesis
        by (auto simp: getSome_body_def batch_ok_def Let_def)
    next
      case False
      obtain hm ctx2 s2 where nx: "next_v env ?ctx1 n s1 = (hm, ctx2, s2)"
        by (cases "next_v env ?ctx1 n s1")
      note fr = next_v_frame [OF nx]
      note bu = next_v_budget [OF nx]
      show ?thesis
      proof (cases "pos ctx2 = 0")
        case True
        with bu(2,4) assms have nhm: "\<not> hm" by simp
        have "(s2\<lparr>m_hasMore := hm\<rparr>, s) \<in> M4"
        proof (cases "m_hasMore s \<and> m_buffer s \<noteq> []")
          case True
          with rel have "s1 = s" by simp
          with fr nhm True show ?thesis
            by (simp add: M4_def ctl_of_def split: list.splits)
        next
          case False
          with rel have "(s1, s) \<in> M3" by simp
          with fr have "(s2\<lparr>m_hasMore := hm\<rparr>, s) \<in> M3"
            by (simp add: M3_def ctl_of_def split: list.splits)
          then show ?thesis by (rule M3_M4)
        qed
        with i None b False nx True show ?thesis
          by (simp add: getSome_body_def Let_def)
      next
        case pz: False
        obtain r s' where fin: "getSome_finish env n ctx2 (s2\<lparr>m_hasMore := hm\<rparr>) = (r, s')"
          by (cases "getSome_finish env n ctx2 (s2\<lparr>m_hasMore := hm\<rparr>)")
        from bu(1) obtain b2 where r2: "res ctx2 = Some b2" and sz: "size_blk b2 = n"
          by (cases "res ctx2") auto
        from getSome_finish_ok [OF fin r2 sz _ assms] pz have "batch_ok r" by simp
        with i None b False nx pz fin show ?thesis
          by (simp add: getSome_body_def Let_def)
      qed
    qed
  qed
qed

lemma getSome_loop_total:
  assumes "0 < n"
  shows "\<exists>r s'. getSome_loop env n ctx s = Some (r, s') \<and> batch_ok r"
proof (induction s arbitrary: ctx rule: wf_induct_rule [OF wf_M4])
  case (1 s)
  show ?case
  proof (cases "getSome_body env n ctx s")
    case (Inl p)
    with getSome_body_cases [OF assms, where env = env and ctx = ctx and s = s] show ?thesis
      by (subst getSome_loop.simps) (auto split: prod.splits)
  next
    case (Inr q)
    obtain ctx1 s1 where q: "q = (ctx1, s1)" by (cases q)
    with Inr getSome_body_cases [OF assms, where env = env and ctx = ctx and s = s] have "(s1, s) \<in> M4" by simp
    from "1.IH" [OF this, where ctx = ctx1] Inr q show ?thesis
      by (subst getSome_loop.simps) simp
  qed
qed

section \<open>No batch without rows\<close>

text \<open>
  C1: for \<open>at_most > 0\<close> every call of \<open>getSome\<close> returns, and when it returns the state
  HASMORE it returns a batch with at least one row; no batch, or a batch without rows,
  comes only with WAITING or DONE.
\<close>

theorem getSome_never_hasmore_without_rows:
  assumes "0 < n"
  shows "\<exists>r s'. getSome env n s = Some (r, s')
           \<and> (\<forall>st b. r = Inr (st, b) \<longrightarrow>
                 (st = HASMORE \<longrightarrow> (\<exists>blk. b = Some blk \<and> 0 < size_blk blk))
               \<and> ((b = None \<or> (\<exists>blk. b = Some blk \<and> size_blk blk = 0)) \<longrightarrow>
                    st = WAITING \<or> st = DONE))"
proof (cases "m_done s")
  case True
  then show ?thesis by (simp add: getSome_def)
next
  case False
  from getSome_loop_total [OF assms, where env = env and s = s
      and ctx = "\<lparr>curRegs = nrInputRegisters env, res = None, pos = 0\<rparr>"]
  obtain r s' where l: "getSome_loop env n \<lparr>curRegs = nrInputRegisters env, res = None, pos = 0\<rparr> s = Some (r, s')"
    and ok: "batch_ok r" by blast
  from ok have "\<forall>st b. r = Inr (st, b) \<longrightarrow>
                 (st = HASMORE \<longrightarrow> (\<exists>blk. b = Some blk \<and> 0 < size_blk blk))
               \<and> ((b = None \<or> (\<exists>blk. b = Some blk \<and> size_blk blk = 0)) \<longrightarrow>
                    st = WAITING \<or> st = DONE)"
    by (auto simp: batch_ok_def split: option.splits)
  with l False show ?thesis by (simp add: getSome_def)
qed

theorem getSome_never_hasmore_without_rows_witness:
  "0 < (2::nat)
   \<and> fst (the (getSome (ex_env Scored ex_store_full) 2
                 (new_ViewBlock (ex_env Scored ex_store_full) [\<lambda>n. (HASMORE, Some ex_block)])))
       = Inr (HASMORE, Some \<lparr>nrRegs = 3, rows = [[AqlSlice 42, AqlSlice 101, AqlSlice 10],
                                                    [AqlSlice 42, AqlSlice 102, AqlSlice 20]]\<rparr>)
   \<and> 0 < size_blk \<lparr>nrRegs = 3, rows = [[AqlSlice 42, AqlSlice 101, AqlSlice 10],
                                        [AqlSlice 42, AqlSlice 102, AqlSlice 20]]\<rparr>"
proof -
  let ?env = "ex_env Scored ex_store_full"
  let ?s = "new_ViewBlock ?env [\<lambda>n. (HASMORE, Some ex_block)]"
  let ?b = "\<lparr>nrRegs = 3, rows = [[AqlSlice 42, AqlSlice 101, AqlSlice 10],
                               [AqlSlice 42, AqlSlice 102, AqlSlice 20]]\<rparr>"
  have h: "0 < (2::nat)" by simp
  have e: "fst (the (getSome ?env 2 ?s)) = Inr (HASMORE, Some ?b)" by code_simp
  from getSome_never_hasmore_without_rows [OF h, where env = ?env and s = ?s]
  obtain r s' where g: "getSome ?env 2 ?s = Some (r, s')"
    and p: "\<forall>st b. r = Inr (st, b) \<longrightarrow>
                 (st = HASMORE \<longrightarrow> (\<exists>blk. b = Some blk \<and> 0 < size_blk blk))
               \<and> ((b = None \<or> (\<exists>blk. b = Some blk \<and> size_blk blk = 0)) \<longrightarrow>
                    st = WAITING \<or> st = DONE)"
    by blast
  from e g have "r = Inr (HASMORE, Some ?b)" by simp
  with p have "0 < size_blk ?b" by simp
  with h e show ?thesis by simp
qed

section \<open>Suspension on WAITING\<close>

text \<open>
  A call that is answered WAITING by the upstream is repeated by the caller. The call is
  compared with the call on the same block whose upstream gives the same answers without
  the WAITING ones: \<open>uninterrupted\<close>.
\<close>

definition without_waiting :: "nat \<Rightarrow> Upstream \<Rightarrow> Upstream" where
  "without_waiting n deps = filter (\<lambda>answer. fst (answer n) \<noteq> WAITING) deps"

definition uninterrupted :: "Env \<Rightarrow> nat \<Rightarrow> ViewBlock \<Rightarrow> ViewBlock" where
  "uninterrupted env at_most s =
     s\<lparr>m_dependencies := without_waiting (min (DefaultBatchSize env) at_most) (m_dependencies s)\<rparr>"

lemma new_iterator_deps [simp]: "new_iterator env (s\<lparr>m_dependencies := d\<rparr>) = new_iterator env s"
  by (simp add: new_iterator_def)








lemma getHasMoreState_deps:
  "getHasMoreState (s\<lparr>m_dependencies := d\<rparr>)
     = (case getHasMoreState s of (st, s') \<Rightarrow> (st, s'\<lparr>m_dependencies := d\<rparr>))"
  by (simp add: getHasMoreState_def)

lemma skipSome_done_deps:
  "skipSome_done (s\<lparr>m_dependencies := d\<rparr>)
     = (case skipSome_done s of (r, s') \<Rightarrow> (r, s'\<lparr>m_dependencies := d\<rparr>))"
  by (simp add: skipSome_done_def Let_def)

lemma skipSome_finish_deps:
  "skipSome_finish (s\<lparr>m_dependencies := d\<rparr>)
     = (case skipSome_finish s of (r, s') \<Rightarrow> (r, s'\<lparr>m_dependencies := d\<rparr>))"
  by (cases s) (simp add: skipSome_finish_def Let_def getHasMoreState_def)

lemma getSome_finish_deps:
  "getSome_finish env n ctx (s\<lparr>m_dependencies := d\<rparr>)
     = (case getSome_finish env n ctx s of (r, s') \<Rightarrow> (r, s'\<lparr>m_dependencies := d\<rparr>))"
  by (cases s) (simp add: getSome_finish_def Let_def getHasMoreState_def)


definition is_waiting :: "error + (ExecutionState \<times> 'a) \<Rightarrow> bool" where
  "is_waiting r = (case r of Inl e \<Rightarrow> False | Inr (st, x) \<Rightarrow> st = WAITING)"

lemma uninterrupted_fields [simp]:
  "m_done (uninterrupted env n s) = m_done s"
  "m_buffer (uninterrupted env n s) = m_buffer s"
  "m_pos (uninterrupted env n s) = m_pos s"
  "m_upstreamState (uninterrupted env n s) = m_upstreamState s"
  "m_inflight (uninterrupted env n s) = m_inflight s"
  "m_hasMore (uninterrupted env n s) = m_hasMore s"
  "m_scannedIndex (uninterrupted env n s) = m_scannedIndex s"
  "m_dependencies (uninterrupted env n s)
     = without_waiting (min (DefaultBatchSize env) n) (m_dependencies s)"
  by (simp_all add: uninterrupted_def)

lemma uninterrupted_update [simp]:
  "(uninterrupted env n s)\<lparr>m_done := a\<rparr> = uninterrupted env n (s\<lparr>m_done := a\<rparr>)"
  "(uninterrupted env n s)\<lparr>m_buffer := b\<rparr> = uninterrupted env n (s\<lparr>m_buffer := b\<rparr>)"
  "(uninterrupted env n s)\<lparr>m_pos := c\<rparr> = uninterrupted env n (s\<lparr>m_pos := c\<rparr>)"
  "(uninterrupted env n s)\<lparr>m_upstreamState := d\<rparr> = uninterrupted env n (s\<lparr>m_upstreamState := d\<rparr>)"
  "(uninterrupted env n s)\<lparr>m_inflight := e\<rparr> = uninterrupted env n (s\<lparr>m_inflight := e\<rparr>)"
  "(uninterrupted env n s)\<lparr>m_hasMore := f\<rparr> = uninterrupted env n (s\<lparr>m_hasMore := f\<rparr>)"
  "(uninterrupted env n s)\<lparr>m_scannedIndex := g\<rparr> = uninterrupted env n (s\<lparr>m_scannedIndex := g\<rparr>)"
  by (cases s; simp add: uninterrupted_def)+











lemma skipSome_fetch_cases:
  assumes "skipSome_fetch env n s = (r, s1)"
  shows "(m_buffer s \<noteq> [] \<and> r = None \<and> s1 = s)
       \<or> (m_buffer s = [] \<and> r \<noteq> None)
       \<or> (m_buffer s = [] \<and> r = None \<and> m_buffer s1 \<noteq> [] \<and> m_inflight s1 = m_inflight s
            \<and> m_done s1 = m_done s
            \<and> length (m_dependencies s1) < length (m_dependencies s))"
proof (cases "m_buffer s = []")
  case False
  with assms show ?thesis by (simp add: skipSome_fetch_def)
next
  case True
  obtain st got s0 where g: "getBlock (min (DefaultBatchSize env) n) s = ((st, got), s0)"
    by (cases "getBlock (min (DefaultBatchSize env) n) s") auto
  show ?thesis
  proof (cases "st = WAITING")
    case True
    with assms \<open>m_buffer s = []\<close> g show ?thesis
      by (auto simp: skipSome_fetch_def)
  next
    case nw: False
    show ?thesis
    proof (cases got)
      case False
      with nw assms \<open>m_buffer s = []\<close> g show ?thesis
        by (auto simp: skipSome_fetch_def Let_def split: prod.splits)
    next
      case True
      with nw getBlock_cases [OF g] obtain a rest where
        d: "m_dependencies s = a # rest"
        and s0: "s0 = s\<lparr>m_dependencies := rest, m_buffer := m_buffer s @ [the (snd (a (min (DefaultBatchSize env) n)))]\<rparr>"
        by (auto split: if_splits)
      obtain e s3 where rs: "reset env (s0\<lparr>m_upstreamState := st, m_pos := 0\<rparr>) = (e, s3)"
        by (cases "reset env (s0\<lparr>m_upstreamState := st, m_pos := 0\<rparr>)")
      from reset_frame [OF rs] s0 d
      have "m_buffer s3 \<noteq> []" "m_inflight s3 = m_inflight s" "m_done s3 = m_done s"
        "length (m_dependencies s3) < length (m_dependencies s)"
        by (simp_all add: ctl_of_def)
      with assms \<open>m_buffer s = []\<close> g nw True rs show ?thesis
        by (cases e) (auto simp: skipSome_fetch_def Let_def)
    qed
  qed
qed

text \<open>The matches the read cursor has not reached yet.\<close>

definition segment_matches :: "Env \<Rightarrow> ViewBlock \<Rightarrow> nat \<Rightarrow> doc_id list" where
  "segment_matches env s i = execute (reader env ! i) (m_filter s) (m_order s) (m_ctx s)"

definition remaining :: "Env \<Rightarrow> ViewBlock \<Rightarrow> nat" where
  "remaining env s =
     (if m_readerOffset s < length (reader env)
      then length (case m_itr s of None \<Rightarrow> new_iterator env s | Some it \<Rightarrow> it)
           + sum_list (map (\<lambda>i. length (segment_matches env s i))
                         [m_readerOffset s + 1 ..< length (reader env)])
      else 0)"

lemma skip_while_count:
  "skip_while xs limit skipped
     = (drop (min limit (length xs)) xs, limit - min limit (length xs),
        skipped + min limit (length xs))"
proof (induction xs limit skipped rule: skip_while.induct)
  case (1 limit skipped)
  then show ?case by simp
next
  case (2 d ds limit skipped)
  show ?case
  proof (cases limit)
    case 0
    then show ?thesis by simp
  next
    case (Suc l)
    with "2.IH" show ?thesis by simp
  qed
qed

lemma remaining_next_segment:
  assumes "m_readerOffset s < length (reader env)"
  shows "remaining env (s\<lparr>m_readerOffset := m_readerOffset s + 1, m_itr := None\<rparr>)
           = sum_list (map (\<lambda>i. length (segment_matches env s i))
                         [m_readerOffset s + 1 ..< length (reader env)])"
proof (cases "m_readerOffset s + 1 < length (reader env)")
  case True
  then have "[m_readerOffset s + 1 ..< length (reader env)]
               = (m_readerOffset s + 1) # [m_readerOffset s + 2 ..< length (reader env)]"
    by (simp add: upt_conv_Cons)
  with True show ?thesis
    by (simp add: remaining_def new_iterator_def segment_matches_def)
next
  case False
  then show ?thesis by (simp add: remaining_def)
qed

lemma skip_for_count:
  "skip_for env limit skipped s = (k, s') \<Longrightarrow>
   k = skipped + min limit (remaining env s)
   \<and> remaining env s' = remaining env s - min limit (remaining env s)"
proof (induction env limit skipped s arbitrary: k s' rule: skip_for.induct)
  case (1 env limit skipped s)
  show ?case
  proof (cases "m_readerOffset s < length (reader env)")
    case False
    with "1.prems" show ?thesis
      by (subst (asm) skip_for.simps) (simp add: remaining_def)
  next
    case True
    let ?it = "case m_itr s of None \<Rightarrow> new_iterator env s | Some it \<Rightarrow> it"
    let ?m = "min limit (length ?it)"
    let ?t = "s\<lparr>m_readerOffset := m_readerOffset s + 1, m_itr := None\<rparr>"
    have w: "skip_while ?it limit skipped = (drop ?m ?it, limit - ?m, skipped + ?m)"
      by (rule skip_while_count)
    have rem: "remaining env s = length ?it + remaining env ?t"
      using True remaining_next_segment [OF True] by (simp add: remaining_def)
    show ?thesis
    proof (cases "limit - ?m = 0")
      case z: True
      with True w "1.prems" have k: "k = skipped + ?m" and s': "s' = s\<lparr>m_itr := Some (drop ?m ?it)\<rparr>"
        by (subst (asm) skip_for.simps, simp)+
      from z have le: "limit \<le> length ?it" by simp
      have "remaining env s' = (length ?it - limit) + remaining env ?t"
        using True s' le remaining_next_segment [OF True]
        by (simp add: remaining_def segment_matches_def min_absorb1)
      with k rem le show ?thesis by (simp add: min_absorb1)
    next
      case nz: False
      then have gt: "length ?it < limit" by simp
      from True w nz "1.prems"
      have "skip_for env (limit - ?m) (skipped + ?m) ?t = (k, s')"
        by (subst (asm) skip_for.simps) simp
      from "1.IH" [OF True w [symmetric] refl nz this]
      have "k = skipped + ?m + min (limit - ?m) (remaining env ?t)"
        and "remaining env s' = remaining env ?t - min (limit - ?m) (remaining env ?t)"
        by simp_all
      with rem gt show ?thesis by (auto simp: min_def)
    qed
  qed
qed

lemma skip_v_count:
  "skip_v env limit s = (k, s') \<Longrightarrow>
   k = min limit (remaining env s) \<and> remaining env s' = remaining env s - k"
  by (auto simp: skip_v_def skip_scored_def skip_unordered_def
           split: Strategy.splits dest: skip_for_count)

text \<open>One round of the loop of skipSome.\<close>

lemma skipSome_body_cases:
  assumes "skipSome_body env n s = Inr s1" and "m_inflight s < n"
  shows "m_done s1 = m_done s \<and> m_inflight s1 \<le> n
       \<and> length (m_dependencies s1) \<le> length (m_dependencies s)
       \<and> (if m_inflight s1 < n then (s1, s) \<in> M3 else m_buffer s1 \<noteq> [])"
proof -
  obtain r s0 where f: "skipSome_fetch env n s = (r, s0)" by (cases "skipSome_fetch env n s")
  with assms have rN: "r = None" by (cases r) (simp_all add: skipSome_body_def)
  with skipSome_fetch_cases [OF f]
  have b0: "m_buffer s0 \<noteq> []" and i0: "m_inflight s0 = m_inflight s" and d0: "m_done s0 = m_done s"
    and rel: "s0 = s \<or> (s0, s) \<in> M3"
    and dl: "length (m_dependencies s0) \<le> length (m_dependencies s)"
    by (auto intro: M3_deps)
  then obtain cur rest where b: "m_buffer s0 = cur # rest" by (cases "m_buffer s0") auto
  obtain k s2 where sk: "skip_v env (n - m_inflight s0) s0 = (k, s2)"
    by (cases "skip_v env (n - m_inflight s0) s0")
  note fr = skip_v_frame [OF sk]
  from skip_v_count [OF sk] have kb: "k \<le> n - m_inflight s0" by simp
  let ?s3 = "s2\<lparr>m_inflight := m_inflight s2 + k\<rparr>"
  from fr have f3: "m_done ?s3 = m_done s0" "m_buffer ?s3 = m_buffer s0" "m_pos ?s3 = m_pos s0"
    "m_dependencies ?s3 = m_dependencies s0" "m_inflight ?s3 = m_inflight s0 + k"
    by (simp_all add: ctl_of_def)
  show ?thesis
  proof (cases "m_inflight ?s3 < n")
    case False
    with f rN b sk assms(1) have "s1 = ?s3"
      by (simp add: skipSome_body_def Let_def)
    with False f3 b0 d0 dl kb i0 assms(2) show ?thesis by simp
  next
    case lt: True
    show ?thesis
    proof (cases "size_blk cur \<le> m_pos ?s3 + 1")
      case True
      with f rN b sk lt assms(1) have s1: "s1 = ?s3\<lparr>m_buffer := tl (m_buffer ?s3), m_pos := 0\<rparr>"
        by (simp add: skipSome_body_def Let_def)
      with f3 b have "(s1, s0) \<in> M3" by (simp add: M3_def)
      with rel have "(s1, s) \<in> M3" by (auto intro: M3_trans)
      with s1 f3 lt d0 dl show ?thesis by simp
    next
      case False
      obtain e s4 where rs: "reset env (?s3\<lparr>m_pos := m_pos ?s3 + 1\<rparr>) = (e, s4)"
        by (cases "reset env (?s3\<lparr>m_pos := m_pos ?s3 + 1\<rparr>)")
      with f rN b sk lt False assms(1) have s1: "s1 = s4" and "e = None"
        by (cases e; simp add: skipSome_body_def Let_def)+
      from reset_frame [OF rs] have c4: "ctl_of s4 = ctl_of (?s3\<lparr>m_pos := m_pos ?s3 + 1\<rparr>)" .
      have "(?s3\<lparr>m_pos := m_pos ?s3 + 1\<rparr>, s0) \<in> M3"
        using f3 b False by (simp add: M3_def)
      with M3_ctl [OF c4] have "(s4, s0) \<in> M3" by simp
      with rel have "(s4, s) \<in> M3" by (auto intro: M3_trans)
      with s1 c4 f3 lt d0 dl show ?thesis by (simp add: ctl_of_def)
    qed
  qed
qed

lemma skipSome_loop_total: "\<exists>r s'. skipSome_loop env n s = Some (r, s')"
proof (induction s rule: wf_induct_rule [OF wf_M3])
  case (1 s)
  show ?case
  proof (cases "m_inflight s < n")
    case False
    then show ?thesis
      by (subst skipSome_loop.simps) (simp add: prod_eq_iff)
  next
    case True
    show ?thesis
    proof (cases "skipSome_body env n s")
      case (Inl p)
      with True show ?thesis
        by (subst skipSome_loop.simps) (simp add: prod_eq_iff)
    next
      case (Inr s1)
      note c = skipSome_body_cases [OF Inr True]
      show ?thesis
      proof (cases "m_inflight s1 < n")
        case lt: True
        with c have "(s1, s) \<in> M3" by simp
        from "1.IH" [OF this] True Inr show ?thesis
          by (subst skipSome_loop.simps) simp
      next
        case False
        then have "skipSome_loop env n s1 = Some (skipSome_finish s1)"
          by (subst skipSome_loop.simps) simp
        with True Inr show ?thesis
          by (subst skipSome_loop.simps) (simp add: prod_eq_iff)
      qed
    qed
  qed
qed



lemma is_waiting_simps [simp]:
  "is_waiting (Inl e) = False"
  "is_waiting (Inr (st, x)) = (st = WAITING)"
  by (simp_all add: is_waiting_def)













definition inner_waiting :: "GetResult option \<Rightarrow> bool" where
  "inner_waiting r = (case r of None \<Rightarrow> False | Some x \<Rightarrow> is_waiting x)"

lemma inner_waiting_simps [simp]:
  "inner_waiting None = False"
  "inner_waiting (Some x) = is_waiting x"
  by (simp_all add: inner_waiting_def)

















section \<open>Failure of the predicate compiler\<close>

text \<open>
  A block of two input rows, and a predicate compiler that cannot translate the filter
  condition for the first of them.
\<close>

definition ex_block2 :: AqlItemBlock where
  "ex_block2 = \<lparr>nrRegs = 1, rows = [[AqlSlice 42], [AqlSlice 43]]\<rparr>"



section \<open>Rows fetched and matches skipped\<close>

text \<open>
  The calls repeated until one returns DONE, also after WAITING: the rows of the batches
  of \<open>getSome\<close> and the counts of \<open>skipSome\<close> are added up. An exception ends the
  sequence.
\<close>

definition rows_of :: "AqlItemBlock option \<Rightarrow> nat" where
  "rows_of b = (case b of None \<Rightarrow> 0 | Some blk \<Rightarrow> size_blk blk)"

partial_function (option) getSome_sum ::
  "Env \<Rightarrow> nat \<Rightarrow> nat \<Rightarrow> ViewBlock \<Rightarrow> (error + nat) option" where
  "getSome_sum env at_most acc s =
     (case getSome env at_most s of
        None \<Rightarrow> None
      | Some (Inl e, s1) \<Rightarrow> Some (Inl e)
      | Some (Inr (st, b), s1) \<Rightarrow>
          if st = DONE then Some (Inr (acc + rows_of b))
          else getSome_sum env at_most (acc + rows_of b) s1)"

partial_function (option) skipSome_sum ::
  "Env \<Rightarrow> nat \<Rightarrow> nat \<Rightarrow> ViewBlock \<Rightarrow> (error + nat) option" where
  "skipSome_sum env at_most acc s =
     (case skipSome env at_most s of
        None \<Rightarrow> None
      | Some (Inl e, s1) \<Rightarrow> Some (Inl e)
      | Some (Inr (st, k), s1) \<Rightarrow>
          if st = DONE then Some (Inr (acc + k)) else skipSome_sum env at_most (acc + k) s1)"

declare getSome_sum.simps [code]
declare skipSome_sum.simps [code]

text \<open>Every document that a segment can match is found in the storage.\<close>

definition joins_succeed :: "Env \<Rightarrow> bool" where
  "joins_succeed env \<longleftrightarrow>
     (\<forall>off < length (reader env). \<forall>f ord ctx. \<forall>d \<in> set (execute (reader env ! off) f ord ctx).
        readDocument_sub env off d \<noteq> None)"

text \<open>The matches that are still to come, counted row by row.\<close>

definition exhausted :: "Env \<Rightarrow> ViewBlock \<Rightarrow> ViewBlock" where
  "exhausted env s = s\<lparr>m_readerOffset := length (reader env), m_itr := None\<rparr>"

definition next_row :: "Env \<Rightarrow> ViewBlock \<Rightarrow> error + ViewBlock" where
  "next_row env s =
     (case m_buffer s of
        [] \<Rightarrow> Inl TRI_ASSERT_FAILED
      | cur # rest \<Rightarrow>
          if size_blk cur \<le> m_pos s + 1 then Inr (s\<lparr>m_buffer := rest, m_pos := 0\<rparr>)
          else (case reset env (s\<lparr>m_pos := m_pos s + 1\<rparr>) of
                  (Some e, s1) \<Rightarrow> Inl e
                | (None, s1) \<Rightarrow> Inr s1))"

definition plus_count :: "nat \<Rightarrow> error + nat \<Rightarrow> error + nat" where
  "plus_count k r = (case r of Inl e \<Rightarrow> Inl e | Inr m \<Rightarrow> Inr (k + m))"

lemma next_row_M3: "next_row env s = Inr s1 \<Longrightarrow> (s1, s) \<in> M3"
proof -
  assume a: "next_row env s = Inr s1"
  then obtain cur rest where b: "m_buffer s = cur # rest"
    by (cases "m_buffer s") (auto simp: next_row_def)
  show ?thesis
  proof (cases "size_blk cur \<le> m_pos s + 1")
    case True
    with a b show ?thesis by (auto simp: next_row_def M3_def)
  next
    case False
    obtain e s2 where rs: "reset env (s\<lparr>m_pos := m_pos s + 1\<rparr>) = (e, s2)"
      by (cases "reset env (s\<lparr>m_pos := m_pos s + 1\<rparr>)")
    with a b False have "s2 = s1" by (cases e) (auto simp: next_row_def)
    with reset_frame [OF rs] b False show ?thesis
      by (simp add: M3_def ctl_of_def)
  qed
qed

lemma exhausted_ctl [simp]: "ctl_of (exhausted env s) = ctl_of s"
  and exhausted_pred [simp]: "pred_of (exhausted env s) = pred_of s"
  by (simp_all add: exhausted_def ctl_of_def pred_of_def)

text \<open>
  The matches that no call has consumed: those left of the current input row, then
  those of every later row of the input that is buffered or that the upstream still
  gives. A failure of \<open>reset\<close> ends the count.
\<close>

function scan_total :: "Env \<Rightarrow> nat \<Rightarrow> ViewBlock \<Rightarrow> error + nat" where
  "scan_total env tf s =
     (if m_buffer s = [] then
        (case getBlock tf s of
           ((st, got), s1) \<Rightarrow>
             if st = WAITING then scan_total env tf s1
             else if \<not> got then Inr 0
             else
               (case reset env (s1\<lparr>m_upstreamState := st, m_pos := 0\<rparr>) of
                  (Some e, s2) \<Rightarrow> Inl e
                | (None, s2) \<Rightarrow> scan_total env tf s2))
      else
        (case next_row env (exhausted env s) of
           Inl e \<Rightarrow> Inl e
         | Inr s1 \<Rightarrow> plus_count (remaining env s) (scan_total env tf s1)))"
  by pat_completeness auto
termination
proof (relation "inv_image M3 (\<lambda>(env, tf, s). s)")
  show "wf (inv_image M3 (\<lambda>(env, tf, s). s))" by simp
next
  fix env tf s x s1 st got
  assume "m_buffer s = []" "(x, s1) = getBlock tf s" "(st, got) = x" "st = WAITING"
  then have "getBlock tf s = ((WAITING, got), s1)" by simp
  from getBlock_cases [OF this]
  show "((env, tf, s1), env, tf, s) \<in> inv_image M3 (\<lambda>(env, tf, s). s)"
    by (auto simp: M3_def)
next
  fix env tf s x s1 st got y e s2
  assume "m_buffer s = []" "(x, s1) = getBlock tf s" "(st, got) = x" "st \<noteq> WAITING"
    "\<not> \<not> got" "(y, s2) = reset env (s1\<lparr>m_upstreamState := st, m_pos := 0\<rparr>)"
  then have g: "getBlock tf s = ((st, got), s1)" and got: got
    and r: "reset env (s1\<lparr>m_upstreamState := st, m_pos := 0\<rparr>) = (y, s2)" by simp_all
  from getBlock_cases [OF g] reset_frame [OF r] got
  have "length (m_dependencies s2) < length (m_dependencies s)"
    by (auto simp: ctl_of_def split: if_splits)
  then show "((env, tf, s2), env, tf, s) \<in> inv_image M3 (\<lambda>(env, tf, s). s)"
    by (simp add: M3_deps)
next
  fix env tf s s1
  assume "m_buffer s \<noteq> []" "next_row env (exhausted env s) = Inr s1"
  from next_row_M3 [OF this(2)] M3_ctl [of s "exhausted env s"]
  show "((env, tf, s1), env, tf, s) \<in> inv_image M3 (\<lambda>(env, tf, s). s)"
    by (simp add: M3_def ctl_of_def exhausted_def split: list.splits)
qed

declare scan_total.simps [simp del]

text \<open>The count depends on the input that is left, the predicate and the matches left.\<close>

definition scan_eq :: "Env \<Rightarrow> ViewBlock \<Rightarrow> ViewBlock \<Rightarrow> bool" where
  "scan_eq env s t \<longleftrightarrow>
     m_buffer s = m_buffer t \<and> m_pos s = m_pos t \<and> m_dependencies s = m_dependencies t
     \<and> pred_of s = pred_of t \<and> remaining env s = remaining env t"

lemma scan_eq_refl [simp]: "scan_eq env s s"
  by (simp add: scan_eq_def)

lemma scan_eq_sym: "scan_eq env s t \<Longrightarrow> scan_eq env t s"
  by (simp add: scan_eq_def)

lemma scan_eq_trans: "scan_eq env s t \<Longrightarrow> scan_eq env t u \<Longrightarrow> scan_eq env s u"
  by (simp add: scan_eq_def)

lemma remaining_cong:
  "pred_of s = pred_of t \<Longrightarrow> m_readerOffset s = m_readerOffset t \<Longrightarrow> m_itr s = m_itr t \<Longrightarrow>
   remaining env s = remaining env t"
  by (simp add: remaining_def pred_of_def new_iterator_def segment_matches_def
           split: option.splits)

lemma remaining_exhausted [simp]: "remaining env (exhausted env s) = 0"
  by (simp add: remaining_def exhausted_def)

lemma scan_eq_exhausted:
  "m_buffer s = m_buffer t \<Longrightarrow> m_pos s = m_pos t \<Longrightarrow> m_dependencies s = m_dependencies t \<Longrightarrow>
   pred_of s = pred_of t \<Longrightarrow> scan_eq env (exhausted env s) (exhausted env t)"
  by (simp add: scan_eq_def) (simp add: exhausted_def)

lemma reset_base_cong:
  assumes "m_buffer s = m_buffer t" "m_pos s = m_pos t" "pred_of s = pred_of t"
  shows "fst (reset_base env s) = fst (reset_base env t)
       \<and> pred_of (snd (reset_base env s)) = pred_of (snd (reset_base env t))"
  using assms
  by (auto simp: reset_base_def pred_of_def Let_def split: list.splits option.splits)

lemma reset_cong:
  assumes "m_buffer s = m_buffer t" "m_pos s = m_pos t" "pred_of s = pred_of t"
    and "reset env s = (e, s1)" and "reset env t = (e', t1)"
  shows "e = e' \<and> pred_of s1 = pred_of t1
       \<and> (e = None \<longrightarrow> m_itr s1 = None \<and> m_readerOffset s1 = 0
                       \<and> m_itr t1 = None \<and> m_readerOffset t1 = 0)"
proof -
  note c = reset_base_cong [OF assms(1-3), of env]
  obtain a s0 where rs: "reset_base env s = (a, s0)" by (cases "reset_base env s")
  obtain b t0 where rt: "reset_base env t = (b, t0)" by (cases "reset_base env t")
  from c rs rt have "a = b" "pred_of s0 = pred_of t0" by simp_all
  with rs rt assms(4,5) show ?thesis
    by (cases a) (auto simp: reset_def pred_of_def)
qed

lemma reset_scan_eq:
  assumes "m_buffer s = m_buffer t" "m_pos s = m_pos t" "m_dependencies s = m_dependencies t"
    "pred_of s = pred_of t"
    and "reset env s = (e, s1)" and "reset env t = (e', t1)"
  shows "e = e' \<and> (e = None \<longrightarrow> scan_eq env s1 t1)"
proof -
  from reset_cong [OF assms(1,2,4,5,6)]
  have e: "e = e'" and p: "pred_of s1 = pred_of t1"
    and c: "e = None \<longrightarrow> m_itr s1 = None \<and> m_readerOffset s1 = 0
                       \<and> m_itr t1 = None \<and> m_readerOffset t1 = 0" by simp_all
  from reset_frame [OF assms(5)] reset_frame [OF assms(6)] assms(1-3)
  have f: "m_buffer s1 = m_buffer t1" "m_pos s1 = m_pos t1" "m_dependencies s1 = m_dependencies t1"
    by (simp_all add: ctl_of_def)
  show ?thesis
  proof (intro conjI impI)
    show "e = e'" by (rule e)
    assume "e = None"
    with c have "m_readerOffset s1 = m_readerOffset t1" "m_itr s1 = m_itr t1" by simp_all
    from remaining_cong [OF p this] f p show "scan_eq env s1 t1"
      by (simp add: scan_eq_def)
  qed
qed

lemma remaining_ctl_update [simp]:
  "remaining env (s\<lparr>m_buffer := b\<rparr>) = remaining env s"
  "remaining env (s\<lparr>m_pos := p\<rparr>) = remaining env s"
  "remaining env (s\<lparr>m_dependencies := d\<rparr>) = remaining env s"
  "remaining env (s\<lparr>m_upstreamState := u\<rparr>) = remaining env s"
  "remaining env (s\<lparr>m_inflight := i\<rparr>) = remaining env s"
  "remaining env (s\<lparr>m_hasMore := h\<rparr>) = remaining env s"
  "remaining env (s\<lparr>m_done := dn\<rparr>) = remaining env s"
  "remaining env (s\<lparr>m_scannedIndex := x\<rparr>) = remaining env s"
  "remaining env (s\<lparr>m_keys := ks\<rparr>) = remaining env s"
  by (simp_all add: remaining_def new_iterator_def segment_matches_def split: option.splits)

lemma pred_of_ctl_update [simp]:
  "pred_of (s\<lparr>m_buffer := b\<rparr>) = pred_of s"
  "pred_of (s\<lparr>m_pos := p\<rparr>) = pred_of s"
  "pred_of (s\<lparr>m_dependencies := d\<rparr>) = pred_of s"
  "pred_of (s\<lparr>m_upstreamState := u\<rparr>) = pred_of s"
  "pred_of (s\<lparr>m_inflight := i\<rparr>) = pred_of s"
  "pred_of (s\<lparr>m_hasMore := h\<rparr>) = pred_of s"
  "pred_of (s\<lparr>m_done := dn\<rparr>) = pred_of s"
  "pred_of (s\<lparr>m_scannedIndex := x\<rparr>) = pred_of s"
  "pred_of (s\<lparr>m_keys := ks\<rparr>) = pred_of s"
  by (simp_all add: pred_of_def)

lemma next_row_cong:
  assumes "scan_eq env s t"
  shows "case next_row env s of
           Inl e \<Rightarrow> next_row env t = Inl e
         | Inr s1 \<Rightarrow> (\<exists>t1. next_row env t = Inr t1 \<and> scan_eq env s1 t1)"
proof (cases "m_buffer s")
  case Nil
  with assms show ?thesis by (simp add: next_row_def scan_eq_def)
next
  case (Cons cur rest)
  with assms have bt: "m_buffer t = cur # rest" and pt: "m_pos t = m_pos s"
    by (simp_all add: scan_eq_def)
  show ?thesis
  proof (cases "size_blk cur \<le> m_pos s + 1")
    case True
    with Cons bt pt assms show ?thesis
      by (simp add: next_row_def scan_eq_def)
  next
    case False
    obtain e s1 where rs: "reset env (s\<lparr>m_pos := m_pos s + 1\<rparr>) = (e, s1)"
      by (cases "reset env (s\<lparr>m_pos := m_pos s + 1\<rparr>)")
    obtain e' t1 where rt: "reset env (t\<lparr>m_pos := m_pos t + 1\<rparr>) = (e', t1)"
      by (cases "reset env (t\<lparr>m_pos := m_pos t + 1\<rparr>)")
    from assms pt
    have "m_buffer (s\<lparr>m_pos := m_pos s + 1\<rparr>) = m_buffer (t\<lparr>m_pos := m_pos t + 1\<rparr>)"
      "m_pos (s\<lparr>m_pos := m_pos s + 1\<rparr>) = m_pos (t\<lparr>m_pos := m_pos t + 1\<rparr>)"
      "m_dependencies (s\<lparr>m_pos := m_pos s + 1\<rparr>) = m_dependencies (t\<lparr>m_pos := m_pos t + 1\<rparr>)"
      "pred_of (s\<lparr>m_pos := m_pos s + 1\<rparr>) = pred_of (t\<lparr>m_pos := m_pos t + 1\<rparr>)"
      by (simp_all add: scan_eq_def)
    from reset_scan_eq [OF this rs rt]
    have ee: "e' = e" and e1: "e = None \<longrightarrow> scan_eq env s1 t1" by simp_all
    from rt ee have rt': "reset env (t\<lparr>m_pos := m_pos t + 1\<rparr>) = (e, t1)" by simp
    from Cons bt pt False rs rt' e1 show ?thesis
      by (cases e) (simp_all add: next_row_def)
  qed
qed

lemma getBlock_scan_eq:
  assumes "scan_eq env s t" and "getBlock tf s = (x, s1)" and "getBlock tf t = (y, t1)"
  shows "x = y \<and> scan_eq env s1 t1"
  using assms
  by (auto simp: getBlock_def scan_eq_def split: list.splits if_splits option.splits)

lemma scan_total_cong:
  "scan_eq env s t \<Longrightarrow> scan_total env tf s = scan_total env tf t"
proof (induction env tf s arbitrary: t rule: scan_total.induct)
  case (1 env tf s)
  note eq = "1.prems"
  show ?case
  proof (cases "m_buffer s = []")
    case True
    with eq have bt: "m_buffer t = []" by (simp add: scan_eq_def)
    obtain st got s1 where gs: "getBlock tf s = ((st, got), s1)"
      by (cases "getBlock tf s") auto
    obtain y t1 where gt: "getBlock tf t = (y, t1)" by (cases "getBlock tf t")
    from getBlock_scan_eq [OF eq gs gt] have y: "y = (st, got)" and e1: "scan_eq env s1 t1"
      by simp_all
    show ?thesis
    proof (cases "st = WAITING")
      case w: True
      from "1.IH"(1) [OF True gs [symmetric] refl w e1] True bt gs gt y w show ?thesis
        by (simp add: scan_total.simps [of env tf s] scan_total.simps [of env tf t])
    next
      case nw: False
      show ?thesis
      proof (cases got)
        case False
        with True bt gs gt y nw show ?thesis
          by (simp add: scan_total.simps [of env tf s] scan_total.simps [of env tf t])
      next
        case got: True
        let ?s = "s1\<lparr>m_upstreamState := st, m_pos := 0\<rparr>"
        let ?t = "t1\<lparr>m_upstreamState := st, m_pos := 0\<rparr>"
        obtain e s2 where rs: "reset env ?s = (e, s2)" by (cases "reset env ?s")
        obtain e' t2 where rt: "reset env ?t = (e', t2)" by (cases "reset env ?t")
        from e1 have "m_buffer ?s = m_buffer ?t" "m_pos ?s = m_pos ?t"
          "m_dependencies ?s = m_dependencies ?t" "pred_of ?s = pred_of ?t"
          by (simp_all add: scan_eq_def)
        from reset_scan_eq [OF this rs rt]
        have ee: "e' = e" and e2: "e = None \<longrightarrow> scan_eq env s2 t2" by simp_all
        from rt ee have rt': "reset env ?t = (e, t2)" by simp
        show ?thesis
        proof (cases e)
          case (Some err)
          with True bt gs gt y nw got rs rt' show ?thesis
            by (simp add: scan_total.simps [of env tf s] scan_total.simps [of env tf t])
        next
          case None
          with e2 have "scan_eq env s2 t2" by simp
          from "1.IH"(2) [OF True gs [symmetric] refl nw _ rs [symmetric] None this] got
          have "scan_total env tf s2 = scan_total env tf t2" by simp
          with True bt gs gt y nw got rs rt' None show ?thesis
            by (simp add: scan_total.simps [of env tf s] scan_total.simps [of env tf t])
        qed
      qed
    qed
  next
    case False
    with eq have bt: "m_buffer t \<noteq> []" by (simp add: scan_eq_def)
    from eq have ex: "scan_eq env (exhausted env s) (exhausted env t)"
      by (intro scan_eq_exhausted) (simp_all add: scan_eq_def)
    from eq have rem: "remaining env s = remaining env t" by (simp add: scan_eq_def)
    note nc = next_row_cong [OF ex]
    show ?thesis
    proof (cases "next_row env (exhausted env s)")
      case (Inl e)
      with nc False bt show ?thesis
        by (simp add: scan_total.simps [of env tf s] scan_total.simps [of env tf t])
    next
      case (Inr s1)
      with nc obtain t1 where nt: "next_row env (exhausted env t) = Inr t1"
        and e1: "scan_eq env s1 t1" by auto
      from "1.IH"(3) [OF False Inr e1] have "scan_total env tf s1 = scan_total env tf t1" .
      with False bt Inr nt rem show ?thesis
        by (simp add: scan_total.simps [of env tf s] scan_total.simps [of env tf t])
    qed
  qed
qed

lemma plus_count_simps [simp]:
  "plus_count k (Inl e) = Inl e"
  "plus_count k (Inr m) = Inr (k + m)"
  "plus_count 0 r = r"
  "plus_count k (plus_count j r) = plus_count (k + j) r"
  by (simp_all add: plus_count_def split: sum.splits)

lemma exhausted_fields [simp]:
  "m_buffer (exhausted env s) = m_buffer s"
  "m_pos (exhausted env s) = m_pos s"
  "m_dependencies (exhausted env s) = m_dependencies s"
  by (simp_all add: exhausted_def)

lemma scan_fetch:
  assumes "m_buffer s = []" and "getBlock tf s = ((st, got), s1)"
  shows "scan_total env tf s =
           (if st = WAITING then scan_total env tf s1
            else if \<not> got then Inr 0
            else (case reset env (s1\<lparr>m_upstreamState := st, m_pos := 0\<rparr>) of
                    (Some e, s2) \<Rightarrow> Inl e
                  | (None, s2) \<Rightarrow> scan_total env tf s2))"
  using assms by (simp add: scan_total.simps [of env tf s])

lemma scan_skip:
  assumes "m_buffer s \<noteq> []" and "m_buffer s' = m_buffer s" and "m_pos s' = m_pos s"
    and "m_dependencies s' = m_dependencies s" and "pred_of s' = pred_of s"
    and "remaining env s' + k = remaining env s"
  shows "plus_count k (scan_total env tf s') = scan_total env tf s"
proof -
  from assms have ex: "scan_eq env (exhausted env s') (exhausted env s)"
    by (intro scan_eq_exhausted) simp_all
  note nc = next_row_cong [OF ex]
  show ?thesis
  proof (cases "next_row env (exhausted env s')")
    case (Inl e)
    with nc assms(1,2) show ?thesis
      by (simp add: scan_total.simps [of env tf s] scan_total.simps [of env tf s'])
  next
    case (Inr s1)
    with nc obtain t1 where nt: "next_row env (exhausted env s) = Inr t1"
      and e1: "scan_eq env s1 t1" by auto
    from scan_total_cong [OF e1] have "scan_total env tf s1 = scan_total env tf t1" .
    with Inr nt assms(1,2,6) show ?thesis
      by (simp add: scan_total.simps [of env tf s] scan_total.simps [of env tf s'] add.commute)
  qed
qed

text \<open>The step to the next input row, from a state whose matches are used up.\<close>

lemma scan_pop:
  assumes "m_buffer s = cur # rest" and "size_blk cur \<le> m_pos s + 1"
    and "m_buffer t = rest" and "m_pos t = 0" and "m_dependencies t = m_dependencies s"
    and "pred_of t = pred_of s" and "remaining env t = 0"
  shows "scan_total env tf s = plus_count (remaining env s) (scan_total env tf t)"
proof -
  let ?u = "(exhausted env s)\<lparr>m_buffer := rest, m_pos := 0\<rparr>"
  from assms(1,2) have n: "next_row env (exhausted env s) = Inr ?u"
    by (simp add: next_row_def)
  from assms have "scan_eq env ?u t"
    by (simp add: scan_eq_def)
  from scan_total_cong [OF this] n assms(1) show ?thesis
    by (simp add: scan_total.simps [of env tf s])
qed

lemma scan_row:
  assumes "m_buffer s = cur # rest" and "\<not> size_blk cur \<le> m_pos s + 1"
    and "m_buffer t = m_buffer s" and "m_pos t = m_pos s + 1"
    and "m_dependencies t = m_dependencies s" and "pred_of t = pred_of s"
    and "reset env t = (e, t1)"
  shows "scan_total env tf s =
           (case e of Some err \<Rightarrow> Inl err
            | None \<Rightarrow> plus_count (remaining env s) (scan_total env tf t1))"
proof -
  let ?u = "(exhausted env s)\<lparr>m_pos := m_pos (exhausted env s) + 1\<rparr>"
  obtain e' u1 where ru: "reset env ?u = (e', u1)" by (cases "reset env ?u")
  from assms(3-6) have "m_buffer ?u = m_buffer t" "m_pos ?u = m_pos t"
    "m_dependencies ?u = m_dependencies t" "pred_of ?u = pred_of t"
    by simp_all
  from reset_scan_eq [OF this ru assms(7)]
  have ee: "e' = e" and eq: "e' = None \<longrightarrow> scan_eq env u1 t1" by simp_all
  from ru ee have ru': "reset env ?u = (e, u1)" by simp
  show ?thesis
  proof (cases e)
    case (Some err)
    with assms(1,2) ru' show ?thesis
      by (simp add: scan_total.simps [of env tf s] next_row_def)
  next
    case None
    with eq ee have "scan_eq env u1 t1" by simp
    from scan_total_cong [OF this] None assms(1,2) ru' show ?thesis
      by (simp add: scan_total.simps [of env tf s] next_row_def)
  qed
qed

text \<open>When every join succeeds, reading rows moves the cursor as skipping does.\<close>

definition joinable :: "Env \<Rightarrow> nat \<Rightarrow> doc_id \<Rightarrow> bool" where
  "joinable env off d \<longleftrightarrow> readDocument_sub env off d \<noteq> None"

definition cursor_ok :: "Env \<Rightarrow> ViewBlock \<Rightarrow> bool" where
  "cursor_ok env s \<longleftrightarrow>
     (case m_itr s of None \<Rightarrow> True
      | Some it \<Rightarrow> \<forall>d \<in> set it. joinable env (m_readerOffset s) d)"

lemma next_scored_while_count:
  "\<forall>d \<in> set xs. joinable env off d \<Longrightarrow>
   next_scored_while env ord off xs limit ctx = (it, l, c) \<Longrightarrow>
   it = drop (min limit (length xs)) xs \<and> l = limit - min limit (length xs)"
proof (induction env ord off xs limit ctx rule: next_scored_while.induct)
  case (1 env ord off limit ctx)
  then show ?case by simp
next
  case (2 env ord off d ds limit ctx)
  show ?case
  proof (cases limit)
    case 0
    with "2.prems" show ?thesis by simp
  next
    case (Suc n)
    from "2.prems"(1) obtain doc where doc: "readDocument_sub env off d = Some doc"
      by (auto simp: joinable_def)
    from "2.IH"(2) [OF _ doc] Suc "2.prems" doc show ?thesis by simp
  qed
qed

lemma readPKs_count:
  "\<forall>d \<in> set xs. joinable env off d \<Longrightarrow>
   readPKs xs (pkColumn (reader env ! off)) (pk_read env) limit = (it, ks) \<Longrightarrow>
   it = drop (min limit (length xs)) xs \<and> length ks = min limit (length xs)
   \<and> (\<forall>k \<in> set ks. readDocument_pk env k \<noteq> None)"
proof (induction xs "pkColumn (reader env ! off)" "pk_read env" limit arbitrary: it ks
       rule: readPKs.induct)
  case (1 limit)
  then show ?case by simp
next
  case (2 d ds limit)
  show ?case
  proof (cases limit)
    case 0
    with "2.prems" show ?thesis by simp
  next
    case (Suc n)
    from "2.prems"(1) obtain key k doc where key: "pkColumn (reader env ! off) d = Some key"
      and k: "pk_read env key = Some k" and doc: "readDocument_pk env k = Some doc"
      by (auto simp: joinable_def readDocument_sub_def readDocument_pk_def split: option.splits)
    obtain it0 ks0 where r0: "readPKs ds (pkColumn (reader env ! off)) (pk_read env) n = (it0, ks0)"
      by (cases "readPKs ds (pkColumn (reader env ! off)) (pk_read env) n")
    from "2.hyps"(3) [OF _ key k, of it0 ks0] Suc "2.prems"(1) r0
    have "it0 = drop (min n (length ds)) ds \<and> length ks0 = min n (length ds)
       \<and> (\<forall>k \<in> set ks0. readDocument_pk env k \<noteq> None)" by simp
    with Suc "2.prems"(2) key k doc r0 show ?thesis by auto
  qed
qed

lemma cursor_joinable:
  assumes "joins_succeed env" and "cursor_ok env s" and "m_readerOffset s < length (reader env)"
  shows "\<forall>d \<in> set (case m_itr s of None \<Rightarrow> new_iterator env s | Some it \<Rightarrow> it).
           joinable env (m_readerOffset s) d"
proof (cases "m_itr s")
  case None
  from assms(1,3)
  have "\<forall>d \<in> set (execute (reader env ! m_readerOffset s) (m_filter s) (m_order s) (m_ctx s)).
          readDocument_sub env (m_readerOffset s) d \<noteq> None"
    unfolding joins_succeed_def by blast
  with None show ?thesis
    by (simp add: joinable_def new_iterator_def)
next
  case (Some it)
  with assms(2) show ?thesis by (simp add: cursor_ok_def)
qed

lemma next_scored_for_count:
  "joins_succeed env \<Longrightarrow> cursor_ok env s \<Longrightarrow> next_scored_for env limit ctx s = (l, c, s') \<Longrightarrow>
   l = limit - min limit (remaining env s)
   \<and> remaining env s' = remaining env s - min limit (remaining env s)
   \<and> cursor_ok env s'"
proof (induction env limit ctx s arbitrary: l c s' rule: next_scored_for.induct)
  case (1 env limit ctx s)
  show ?case
  proof (cases "m_readerOffset s < length (reader env)")
    case False
    with "1.prems" show ?thesis
      by (subst (asm) next_scored_for.simps) (simp add: remaining_def)
  next
    case True
    let ?it = "case m_itr s of None \<Rightarrow> new_iterator env s | Some it \<Rightarrow> it"
    let ?m = "min limit (length ?it)"
    let ?t = "s\<lparr>m_readerOffset := m_readerOffset s + 1, m_itr := None\<rparr>"
    obtain it1 limit1 ctx1 where w:
      "next_scored_while env (m_order s) (m_readerOffset s) ?it limit ctx = (it1, limit1, ctx1)"
      by (cases "next_scored_while env (m_order s) (m_readerOffset s) ?it limit ctx")
    from next_scored_while_count [OF cursor_joinable [OF "1.prems"(1,2) True] w]
    have it1: "it1 = drop ?m ?it" and l1: "limit1 = limit - ?m" by simp_all
    have rem: "remaining env s = length ?it + remaining env ?t"
      using True remaining_next_segment [OF True] by (simp add: remaining_def)
    show ?thesis
    proof (cases "limit1 = 0")
      case z: True
      with True w "1.prems"(3) have l: "l = 0" and s': "s' = s\<lparr>m_itr := Some it1\<rparr>"
        by (subst (asm) next_scored_for.simps, simp)+
      from z l1 have le: "limit \<le> length ?it" by simp
      have "remaining env s' = (length ?it - limit) + remaining env ?t"
        using True s' it1 le remaining_next_segment [OF True]
        by (simp add: remaining_def segment_matches_def min_absorb1)
      moreover have "cursor_ok env s'"
        using cursor_joinable [OF "1.prems"(1,2) True] s' it1
        by (auto simp: cursor_ok_def dest: in_set_dropD)
      ultimately show ?thesis using l rem le by (simp add: min_absorb1)
    next
      case nz: False
      with l1 have gt: "length ?it < limit" by simp
      from True w nz "1.prems"(3)
      have rec: "next_scored_for env limit1 ctx1 ?t = (l, c, s')"
        by (subst (asm) next_scored_for.simps) simp
      have ct: "cursor_ok env ?t" by (simp add: cursor_ok_def)
      from "1.IH" [OF True w [symmetric] refl nz "1.prems"(1) ct rec]
      have "l = limit1 - min limit1 (remaining env ?t)"
        and "remaining env s' = remaining env ?t - min limit1 (remaining env ?t)"
        and "cursor_ok env s'"
        by simp_all
      with rem gt l1 show ?thesis by (auto simp: min_def)
    qed
  qed
qed

lemma remaining_keys_update [simp]:
  "remaining env (s\<lparr>m_itr := i, m_keys := ks\<rparr>) = remaining env (s\<lparr>m_itr := i\<rparr>)"
  "remaining env (s\<lparr>m_readerOffset := ro, m_itr := i, m_keys := ks\<rparr>)
     = remaining env (s\<lparr>m_readerOffset := ro, m_itr := i\<rparr>)"
  by (simp_all add: remaining_def new_iterator_def segment_matches_def split: option.splits)

lemma next_unordered_for_count:
  "joins_succeed env \<Longrightarrow> cursor_ok env s \<Longrightarrow> next_unordered_for env limit ctx s = (l, c, s') \<Longrightarrow>
   l = limit - min limit (remaining env s)
   \<and> remaining env s' = remaining env s - min limit (remaining env s)
   \<and> cursor_ok env s'"
proof (induction env limit ctx s arbitrary: l c s' rule: next_unordered_for.induct)
  case (1 env limit ctx s)
  show ?case
  proof (cases "m_readerOffset s < length (reader env)")
    case False
    with "1.prems" show ?thesis
      by (subst (asm) next_unordered_for.simps) (simp add: remaining_def)
  next
    case True
    let ?it = "case m_itr s of None \<Rightarrow> new_iterator env s | Some it \<Rightarrow> it"
    let ?m = "min limit (length ?it)"
    obtain it1 ks where r:
      "readPKs ?it (pkColumn (reader env ! m_readerOffset s)) (pk_read env) limit = (it1, ks)"
      by (cases "readPKs ?it (pkColumn (reader env ! m_readerOffset s)) (pk_read env) limit")
    let ?t = "s\<lparr>m_readerOffset := m_readerOffset s + 1, m_itr := None, m_keys := ks\<rparr>"
    obtain limit1 ctx1 where j: "join_keys env ks limit ctx = (limit1, ctx1)"
      by (cases "join_keys env ks limit ctx")
    from readPKs_count [OF cursor_joinable [OF "1.prems"(1,2) True] r]
    have it1: "it1 = drop ?m ?it" and lk: "length ks = ?m"
      and ok: "\<forall>k \<in> set ks. readDocument_pk env k \<noteq> None" by simp_all
    from join_keys_all_ok [OF ok, of limit ctx] j lk have l1: "limit1 = limit - ?m" by simp
    let ?u = "s\<lparr>m_readerOffset := m_readerOffset s + 1, m_itr := None\<rparr>"
    have tu: "remaining env ?t = remaining env ?u" by simp
    have "remaining env s = length ?it + remaining env ?u"
      using True remaining_next_segment [OF True] by (simp add: remaining_def)
    with tu have rem: "remaining env s = length ?it + remaining env ?t" by simp
    show ?thesis
    proof (cases "limit1 = 0")
      case z: True
      with True r j "1.prems"(3) have l: "l = 0" and s': "s' = s\<lparr>m_itr := Some it1, m_keys := ks\<rparr>"
        by (subst (asm) next_unordered_for.simps, simp)+
      from z l1 have le: "limit \<le> length ?it" by simp
      have "remaining env s' = remaining env (s\<lparr>m_itr := Some it1\<rparr>)"
        using s' by simp
      also have "\<dots> = (length ?it - limit) + remaining env ?u"
        using True it1 le remaining_next_segment [OF True]
        by (simp add: remaining_def segment_matches_def min_absorb1)
      finally have "remaining env s' = (length ?it - limit) + remaining env ?t"
        using tu by simp
      moreover have "cursor_ok env s'"
        using cursor_joinable [OF "1.prems"(1,2) True] s' it1
        by (auto simp: cursor_ok_def dest: in_set_dropD)
      ultimately show ?thesis using l rem le by (simp add: min_absorb1)
    next
      case nz: False
      with l1 have gt: "length ?it < limit" by simp
      from True r j nz "1.prems"(3)
      have rec: "next_unordered_for env limit1 ctx1 ?t = (l, c, s')"
        by (subst (asm) next_unordered_for.simps) simp
      have ct: "cursor_ok env ?t" by (simp add: cursor_ok_def)
      from "1.IH" [OF True r [symmetric] j [symmetric] nz "1.prems"(1) ct rec]
      have "l = limit1 - min limit1 (remaining env ?t)"
        and "remaining env s' = remaining env ?t - min limit1 (remaining env ?t)"
        and "cursor_ok env s'"
        by simp_all
      with rem gt l1 show ?thesis by (auto simp: min_def)
    qed
  qed
qed

lemma next_v_count:
  assumes "joins_succeed env" and "cursor_ok env s" and "next_v env ctx limit s = (hm, c, s')"
  shows "pos c = pos ctx + min limit (remaining env s)"
    and "remaining env s' = remaining env s - min limit (remaining env s)"
    and "cursor_ok env s'"
    and "hm \<longleftrightarrow> limit \<le> remaining env s"
proof -
  obtain l where nf: "(strategy env = Scored \<and> next_scored_for env limit ctx s = (l, c, s'))
        \<or> (strategy env = Unordered \<and> next_unordered_for env limit ctx s = (l, c, s'))"
    and hm: "hm \<longleftrightarrow> l = 0"
    using assms(3)
    by (auto simp: next_v_def next_scored_def next_unordered_def
             split: Strategy.splits prod.splits)
  from nf assms(1,2) have cnt: "l = limit - min limit (remaining env s)
   \<and> remaining env s' = remaining env s - min limit (remaining env s)
   \<and> cursor_ok env s'"
    by (auto dest: next_scored_for_count next_unordered_for_count)
  from nf have "l \<le> limit \<and> pos c = pos ctx + (limit - l)"
    by (auto dest: next_scored_for_budget next_unordered_for_budget)
  with cnt hm show "pos c = pos ctx + min limit (remaining env s)"
    and "remaining env s' = remaining env s - min limit (remaining env s)"
    and "cursor_ok env s'"
    and "hm \<longleftrightarrow> limit \<le> remaining env s"
    by (auto simp: min_def)
qed

text \<open>The matches left for calls with \<open>at_most = n\<close>, and with those skipped but not yet reported.\<close>

definition matches_left :: "Env \<Rightarrow> nat \<Rightarrow> ViewBlock \<Rightarrow> error + nat" where
  "matches_left env n s = scan_total env (min (DefaultBatchSize env) n) s"

definition pending :: "Env \<Rightarrow> nat \<Rightarrow> ViewBlock \<Rightarrow> error + nat" where
  "pending env n s = plus_count (m_inflight s) (matches_left env n s)"

text \<open>The order in which the calls make progress through the input and the matches.\<close>

definition row_left :: "ViewBlock \<Rightarrow> nat" where
  "row_left s = (case m_buffer s of [] \<Rightarrow> 0 | b # _ \<Rightarrow> size_blk b - m_pos s)"

definition M5 :: "Env \<Rightarrow> (ViewBlock \<times> ViewBlock) set" where
  "M5 env = measures [\<lambda>s. length (m_dependencies s), \<lambda>s. length (m_buffer s), row_left,
                      remaining env]"

definition le5 :: "Env \<Rightarrow> ViewBlock \<Rightarrow> ViewBlock \<Rightarrow> bool" where
  "le5 env a b \<longleftrightarrow>
     (a, b) \<in> M5 env
     \<or> (length (m_dependencies a) = length (m_dependencies b)
          \<and> length (m_buffer a) = length (m_buffer b) \<and> row_left a = row_left b
          \<and> remaining env a = remaining env b)"

lemma row_left_cong: "m_buffer a = m_buffer b \<Longrightarrow> m_pos a = m_pos b \<Longrightarrow> row_left a = row_left b"
  by (simp add: row_left_def split: list.splits)

lemma wf_M5 [simp]: "wf (M5 env)"
  by (simp add: M5_def)

lemma M3_M5: "(a, b) \<in> M3 \<Longrightarrow> (a, b) \<in> M5 env"
  by (auto simp: M3_def M5_def row_left_def)

lemma M5_trans: "(a, b) \<in> M5 env \<Longrightarrow> (b, c) \<in> M5 env \<Longrightarrow> (a, c) \<in> M5 env"
  by (auto simp: M5_def)

lemma le5_refl [simp]: "le5 env a a"
  by (simp add: le5_def)

lemma M5_le5: "(a, b) \<in> M5 env \<Longrightarrow> le5 env a b"
  by (simp add: le5_def)

lemma M5_le5_trans: "(a, b) \<in> M5 env \<Longrightarrow> le5 env b c \<Longrightarrow> (a, c) \<in> M5 env"
  by (auto simp: le5_def M5_def)

lemma le5_M5_trans: "le5 env a b \<Longrightarrow> (b, c) \<in> M5 env \<Longrightarrow> (a, c) \<in> M5 env"
  by (auto simp: le5_def M5_def)

lemma le5_trans: "le5 env a b \<Longrightarrow> le5 env b c \<Longrightarrow> le5 env a c"
  by (auto simp: le5_def M5_def)

lemma M5_same_row:
  "m_dependencies a = m_dependencies b \<Longrightarrow> m_buffer a = m_buffer b \<Longrightarrow> m_pos a = m_pos b \<Longrightarrow>
   remaining env a < remaining env b \<Longrightarrow> (a, b) \<in> M5 env"
  using row_left_cong [of a b] by (simp add: M5_def)

lemma le5_same_row:
  "m_dependencies a = m_dependencies b \<Longrightarrow> m_buffer a = m_buffer b \<Longrightarrow> m_pos a = m_pos b \<Longrightarrow>
   remaining env a = remaining env b \<Longrightarrow> le5 env a b"
  using row_left_cong [of a b] by (simp add: le5_def)

lemma plus_count_Inl [simp]: "plus_count k r = Inl e \<longleftrightarrow> r = Inl e"
  by (cases r) simp_all

text \<open>What one call of skipSome contributes to the total.\<close>

definition skip_step_ok :: "Env \<Rightarrow> nat \<Rightarrow> ViewBlock \<Rightarrow> SkipResult \<Rightarrow> ViewBlock \<Rightarrow> bool" where
  "skip_step_ok env n s r s' =
     (case r of
        Inl e \<Rightarrow> pending env n s = Inl e
      | Inr (st, k) \<Rightarrow>
          if st = DONE then pending env n s = Inr k
          else plus_count k (pending env n s') = pending env n s
               \<and> \<not> m_done s' \<and> m_inflight s' < n \<and> (s', s) \<in> M5 env)"

lemma skip_step_ok_transfer:
  assumes "skip_step_ok env n s1 r s'" and "pending env n s1 = pending env n s"
    and "le5 env s1 s"
  shows "skip_step_ok env n s r s'"
  using assms
  by (auto simp: skip_step_ok_def split: sum.splits prod.splits if_splits
           intro: M5_le5_trans)

lemma skipSome_fetch_scan:
  assumes "skipSome_fetch env n s = (r, s0)" and "\<not> m_done s" and "m_inflight s < n"
  shows "case r of
           None \<Rightarrow> pending env n s0 = pending env n s
         | Some x \<Rightarrow> skip_step_ok env n s x s0"
proof (cases "m_buffer s = []")
  case False
  with assms show ?thesis by (simp add: skipSome_fetch_def)
next
  case True
  let ?tf = "min (DefaultBatchSize env) n"
  obtain st got s1 where g: "getBlock ?tf s = ((st, got), s1)"
    by (cases "getBlock ?tf s") auto
  note sf = scan_fetch [OF True g, of env]
  note gc = getBlock_cases [OF g]
  from gc have fr: "m_inflight s1 = m_inflight s" "m_done s1 = m_done s"
    by (auto split: if_splits)
  show ?thesis
  proof (cases "st = WAITING")
    case w: True
    with gc have "length (m_dependencies s1) < length (m_dependencies s)" by auto
    then have m: "(s1, s) \<in> M5 env" by (intro M3_M5 M3_deps)
    from assms True g w have "r = Some (Inr (WAITING, 0))" "s0 = s1"
      by (auto simp: skipSome_fetch_def)
    with assms w sf fr m show ?thesis
      by (simp add: skip_step_ok_def pending_def matches_left_def)
  next
    case nw: False
    show ?thesis
    proof (cases got)
      case False
      with assms True g nw
      have "r = Some (Inr (DONE, m_inflight s1))"
        by (auto simp: skipSome_fetch_def skipSome_done_def Let_def)
      with False nw sf fr show ?thesis
        by (simp add: skip_step_ok_def pending_def matches_left_def)
    next
      case got: True
      obtain e s3 where rs: "reset env (s1\<lparr>m_upstreamState := st, m_pos := 0\<rparr>) = (e, s3)"
        by (cases "reset env (s1\<lparr>m_upstreamState := st, m_pos := 0\<rparr>)")
      from reset_frame [OF rs] fr have f3: "m_inflight s3 = m_inflight s"
        by (simp add: ctl_of_def)
      from assms True g nw got rs
      have "r = (case e of Some err \<Rightarrow> Some (Inl err) | None \<Rightarrow> None)" "s0 = s3"
        by (cases e; auto simp: skipSome_fetch_def Let_def)+
      with nw got rs sf f3 show ?thesis
        by (cases e) (simp_all add: skip_step_ok_def pending_def matches_left_def)
    qed
  qed
qed

lemma skipSome_body_scan:
  assumes "m_inflight s < n" and "\<not> m_done s"
  shows "case skipSome_body env n s of
           Inl (r, s') \<Rightarrow> skip_step_ok env n s r s'
         | Inr s1 \<Rightarrow> pending env n s1 = pending env n s \<and> \<not> m_done s1
                     \<and> (if m_inflight s1 < n then (s1, s) \<in> M3
                         else m_buffer s1 \<noteq> [] \<and> (s1, s) \<in> M5 env)"
proof -
  let ?tf = "min (DefaultBatchSize env) n"
  obtain r s0 where f: "skipSome_fetch env n s = (r, s0)" by (cases "skipSome_fetch env n s")
  note fs = skipSome_fetch_scan [OF f assms(2,1)]
  show ?thesis
  proof (cases r)
    case (Some x)
    with f fs show ?thesis by (simp add: skipSome_body_def)
  next
    case rN: None
    with fs have p0: "pending env n s0 = pending env n s" by simp
    from rN skipSome_fetch_cases [OF f]
    have b0: "m_buffer s0 \<noteq> []" and i0: "m_inflight s0 = m_inflight s"
      and d0: "m_done s0 = m_done s" and rel: "s0 = s \<or> (s0, s) \<in> M3"
      by (auto intro: M3_deps)
    then obtain cur rest where b: "m_buffer s0 = cur # rest" by (cases "m_buffer s0") auto
    obtain k s2 where sk: "skip_v env (n - m_inflight s0) s0 = (k, s2)"
      by (cases "skip_v env (n - m_inflight s0) s0")
    note fr = skip_v_frame [OF sk]
    from skip_v_count [OF sk] have k: "k = min (n - m_inflight s0) (remaining env s0)"
      and r2: "remaining env s2 = remaining env s0 - k" by simp_all
    let ?s3 = "s2\<lparr>m_inflight := m_inflight s2 + k\<rparr>"
    from fr have f3: "m_done ?s3 = m_done s0" "m_buffer ?s3 = m_buffer s0" "m_pos ?s3 = m_pos s0"
      "m_dependencies ?s3 = m_dependencies s0" "m_inflight ?s3 = m_inflight s0 + k"
      "pred_of ?s3 = pred_of s0"
      by (simp_all add: ctl_of_def)
    from k r2 have r3: "remaining env ?s3 + k = remaining env s0" by simp
    from scan_skip [OF b0 f3(2,3,4,6) r3, of ?tf]
    have "plus_count k (matches_left env n ?s3) = matches_left env n s0"
      by (simp add: matches_left_def)
    then have "plus_count (m_inflight s0) (plus_count k (matches_left env n ?s3))
                 = pending env n s0" by (simp add: pending_def)
    with f3(5) have "pending env n ?s3 = pending env n s0"
      by (simp add: pending_def)
    with p0 have p3: "pending env n ?s3 = pending env n s" by simp
    show ?thesis
    proof (cases "m_inflight ?s3 < n")
      case False
      with f rN b sk have body: "skipSome_body env n s = Inr ?s3"
        by (simp add: skipSome_body_def Let_def)
      from False f3(5) k i0 assms(1) have "0 < k" "k \<le> remaining env s0" by auto
      with r3 have "remaining env ?s3 < remaining env s0" by simp
      from M5_same_row [OF f3(4,2,3) this] rel have "(?s3, s) \<in> M5 env"
        by (auto intro: M5_trans M3_M5)
      with body False p3 f3 b0 d0 assms(2) show ?thesis by simp
    next
      case lt: True
      with f3(5) k have "k = remaining env s0" by (auto simp: min_def)
      with r3 have z3: "remaining env ?s3 = 0" by simp
      from b f3 have b3: "m_buffer ?s3 = cur # rest" by simp
      show ?thesis
      proof (cases "size_blk cur \<le> m_pos ?s3 + 1")
        case True
        let ?s1 = "?s3\<lparr>m_buffer := tl (m_buffer ?s3), m_pos := 0\<rparr>"
        from f rN b sk lt True have body: "skipSome_body env n s = Inr ?s1"
          by (simp add: skipSome_body_def Let_def)
        have "m_buffer ?s1 = rest" "m_pos ?s1 = 0" "m_dependencies ?s1 = m_dependencies ?s3"
          "pred_of ?s1 = pred_of ?s3" "remaining env ?s1 = 0"
          using b3 z3 by simp_all
        from scan_pop [OF b3 True this, of ?tf] z3
        have "matches_left env n ?s3 = matches_left env n ?s1"
          by (simp add: matches_left_def)
        then have "pending env n ?s1 = pending env n ?s3" by (simp add: pending_def)
        with p3 have p1: "pending env n ?s1 = pending env n s" by simp
        from f3 b have "(?s1, s0) \<in> M3" by (simp add: M3_def)
        with rel have "(?s1, s) \<in> M3" by (auto intro: M3_trans)
        with body p1 lt f3 d0 assms(2) show ?thesis by simp
      next
        case False
        let ?t = "?s3\<lparr>m_pos := m_pos ?s3 + 1\<rparr>"
        obtain e s4 where rs: "reset env ?t = (e, s4)" by (cases "reset env ?t")
        from reset_frame [OF rs] have c4: "ctl_of s4 = ctl_of ?t" .
        have "m_buffer ?t = m_buffer ?s3" "m_pos ?t = m_pos ?s3 + 1"
          "m_dependencies ?t = m_dependencies ?s3" "pred_of ?t = pred_of ?s3" by simp_all
        from scan_row [OF b3 False this rs, of ?tf] z3
        have sr: "matches_left env n ?s3
                    = (case e of Some err \<Rightarrow> Inl err | None \<Rightarrow> matches_left env n s4)"
          by (simp add: matches_left_def cong: option.case_cong)
        show ?thesis
        proof (cases e)
          case (Some err)
          with f rN b sk lt False rs have body: "skipSome_body env n s = Inl (Inl err, s4)"
            by (simp add: skipSome_body_def Let_def)
          from Some sr p3 have "pending env n s = Inl err" by (simp add: pending_def)
          with body show ?thesis by (simp add: skip_step_ok_def)
        next
          case None
          with f rN b sk lt False rs have body: "skipSome_body env n s = Inr s4"
            by (simp add: skipSome_body_def Let_def)
          from c4 have i4: "m_inflight s4 = m_inflight ?s3" "m_done s4 = m_done ?s3"
            by (simp_all add: ctl_of_def)
          with None sr have "pending env n s4 = pending env n ?s3" by (simp add: pending_def)
          with p3 have p4: "pending env n s4 = pending env n s" by simp
          have "(?t, s0) \<in> M3" using f3 b False by (simp add: M3_def)
          with M3_ctl [OF c4] have "(s4, s0) \<in> M3" by simp
          with rel have "(s4, s) \<in> M3" by (auto intro: M3_trans)
          with body p4 i4 lt f3 d0 assms(2) show ?thesis by simp
        qed
      qed
    qed
  qed
qed

lemma skipSome_finish_scan:
  assumes "skipSome_finish s1 = (r, s')" and "m_buffer s1 \<noteq> []" and "\<not> m_done s1" and "0 < n"
    and "pending env n s1 = pending env n s" and "(s1, s) \<in> M5 env"
  shows "skip_step_ok env n s r s'"
proof -
  let ?s' = "s1\<lparr>m_scannedIndex := int64_add (m_scannedIndex s1) (m_inflight s1), m_inflight := 0\<rparr>"
  from assms(1-3) have fin: "r = Inr (HASMORE, m_inflight s1)" "s' = ?s'"
    by (auto simp: skipSome_finish_def Let_def getHasMoreState_def)
  have "scan_eq env ?s' s1" by (simp add: scan_eq_def)
  from scan_total_cong [OF this] have "matches_left env n ?s' = matches_left env n s1"
    by (simp add: matches_left_def)
  then have p: "plus_count (m_inflight s1) (pending env n ?s') = pending env n s1"
    by (simp add: pending_def)
  have "le5 env ?s' s1" by (rule le5_same_row) simp_all
  from le5_M5_trans [OF this assms(6)] have "(?s', s) \<in> M5 env" .
  with fin p assms(3,4,5) show ?thesis
    by (simp add: skip_step_ok_def)
qed

lemma skipSome_loop_scan:
  assumes "0 < n"
  shows "\<not> m_done s \<Longrightarrow> m_inflight s < n \<Longrightarrow> skipSome_loop env n s = Some (r, s') \<Longrightarrow>
         skip_step_ok env n s r s'"
proof (induction s rule: wf_induct_rule [OF wf_M3])
  case (1 s)
  note bs = skipSome_body_scan [OF "1.prems"(2,1), of env]
  show ?case
  proof (cases "skipSome_body env n s")
    case (Inl p)
    with "1.prems"(2,3) have "p = (r, s')"
      by (subst (asm) skipSome_loop.simps) simp
    with Inl bs show ?thesis by simp
  next
    case (Inr s1)
    with "1.prems"(2,3) have l1: "skipSome_loop env n s1 = Some (r, s')"
      by (subst (asm) skipSome_loop.simps) simp
    from Inr bs have p1: "pending env n s1 = pending env n s" and d1: "\<not> m_done s1"
      and c: "if m_inflight s1 < n then (s1, s) \<in> M3 else m_buffer s1 \<noteq> [] \<and> (s1, s) \<in> M5 env"
      by simp_all
    show ?thesis
    proof (cases "m_inflight s1 < n")
      case True
      with c have m: "(s1, s) \<in> M3" by simp
      from "1.IH" [OF m d1 True l1] have "skip_step_ok env n s1 r s'" .
      from skip_step_ok_transfer [OF this p1 M5_le5 [OF M3_M5 [OF m]]] show ?thesis .
    next
      case False
      with l1 have "skipSome_finish s1 = (r, s')"
        by (subst (asm) skipSome_loop.simps) simp
      from skipSome_finish_scan [OF this _ d1 assms p1] False c show ?thesis by simp
    qed
  qed
qed

lemma skipSome_sum_scan:
  assumes "0 < n"
  shows "\<not> m_done s \<Longrightarrow> m_inflight s < n \<Longrightarrow>
         skipSome_sum env n acc s = Some (plus_count acc (pending env n s))"
proof (induction s arbitrary: acc rule: wf_induct_rule [OF wf_M5 [of env]])
  case (1 s)
  from skipSome_loop_total [of env n s] obtain r s' where l: "skipSome_loop env n s = Some (r, s')"
    by blast
  with "1.prems"(1) have sk: "skipSome env n s = Some (r, s')" by (simp add: skipSome_def)
  note ok = skipSome_loop_scan [OF assms "1.prems" l]
  show ?case
  proof (cases r)
    case (Inl e)
    with ok sk show ?thesis
      by (subst skipSome_sum.simps) (simp add: skip_step_ok_def)
  next
    case (Inr p)
    obtain st k where p: "p = (st, k)" by (cases p)
    show ?thesis
    proof (cases "st = DONE")
      case True
      with ok Inr p sk show ?thesis
        by (subst skipSome_sum.simps) (simp add: skip_step_ok_def)
    next
      case False
      with ok Inr p have step: "plus_count k (pending env n s') = pending env n s"
        and d: "\<not> m_done s'" and i: "m_inflight s' < n" and m: "(s', s) \<in> M5 env"
        by (simp_all add: skip_step_ok_def)
      from "1.IH" [OF m d i, of "acc + k"] step
      have "skipSome_sum env n (acc + k) s' = Some (plus_count acc (pending env n s))"
        by (metis plus_count_simps(4))
      with False Inr p sk show ?thesis
        by (subst skipSome_sum.simps) simp
    qed
  qed
qed

lemma rows_of_simps [simp]: "rows_of None = 0" "rows_of (Some blk) = size_blk blk"
  by (simp_all add: rows_of_def)

text \<open>
  What holds between two calls of \<open>getSome\<close>: \<open>_hasMore\<close> is cleared only on a row
  whose matches are used up.
\<close>

definition get_ready :: "Env \<Rightarrow> ViewBlock \<Rightarrow> bool" where
  "get_ready env s \<longleftrightarrow>
     \<not> m_done s \<and> cursor_ok env s
     \<and> (\<not> m_hasMore s \<longrightarrow> m_buffer s \<noteq> [] \<and> remaining env s = 0)"

definition get_step_ok :: "Env \<Rightarrow> nat \<Rightarrow> ViewBlock \<Rightarrow> GetResult \<Rightarrow> ViewBlock \<Rightarrow> bool" where
  "get_step_ok env n s r s' =
     (case r of
        Inl e \<Rightarrow> matches_left env n s = Inl e
      | Inr (st, b) \<Rightarrow>
          if st = DONE then matches_left env n s = Inr (rows_of b)
          else plus_count (rows_of b) (matches_left env n s') = matches_left env n s
               \<and> get_ready env s' \<and> (s', s) \<in> M5 env)"

lemma get_step_ok_transfer:
  assumes "get_step_ok env n s1 r s'" and "matches_left env n s1 = matches_left env n s"
    and "le5 env s1 s"
  shows "get_step_ok env n s r s'"
  using assms
  by (auto simp: get_step_ok_def split: sum.splits prod.splits if_splits
           intro: M5_le5_trans)

lemma cursor_ok_cong:
  "m_itr s' = m_itr s \<Longrightarrow> m_readerOffset s' = m_readerOffset s \<Longrightarrow>
   cursor_ok env s' = cursor_ok env s"
  by (simp add: cursor_ok_def split: option.splits)

lemma cursor_ok_update [simp]:
  "cursor_ok env (s\<lparr>m_buffer := b\<rparr>) = cursor_ok env s"
  "cursor_ok env (s\<lparr>m_pos := p\<rparr>) = cursor_ok env s"
  "cursor_ok env (s\<lparr>m_dependencies := d\<rparr>) = cursor_ok env s"
  "cursor_ok env (s\<lparr>m_upstreamState := u\<rparr>) = cursor_ok env s"
  "cursor_ok env (s\<lparr>m_inflight := i\<rparr>) = cursor_ok env s"
  "cursor_ok env (s\<lparr>m_hasMore := h\<rparr>) = cursor_ok env s"
  "cursor_ok env (s\<lparr>m_done := dn\<rparr>) = cursor_ok env s"
  "cursor_ok env (s\<lparr>m_scannedIndex := x\<rparr>) = cursor_ok env s"
  "cursor_ok env (s\<lparr>m_keys := ks\<rparr>) = cursor_ok env s"
  by (simp_all add: cursor_ok_def split: option.splits)

lemma cursor_ok_None: "m_itr s = None \<Longrightarrow> cursor_ok env s"
  by (simp add: cursor_ok_def)

lemma getBlock_cursor:
  "getBlock tf s = (x, s0) \<Longrightarrow>
   m_done s0 = m_done s \<and> m_hasMore s0 = m_hasMore s \<and> m_itr s0 = m_itr s
   \<and> m_readerOffset s0 = m_readerOffset s"
  by (auto simp: getBlock_def split: list.splits if_splits option.splits)

lemma reset_cursor: "reset env s = (None, s1) \<Longrightarrow> m_itr s1 = None"
  by (auto simp: reset_def split: prod.splits option.splits)

lemma getSome_fetch_scan:
  assumes "getSome_fetch env n s = (r, s0)" and "get_ready env s"
  shows "case r of
           None \<Rightarrow> matches_left env n s0 = matches_left env n s \<and> get_ready env s0
         | Some x \<Rightarrow> get_step_ok env n s x s0"
proof (cases "m_buffer s = []")
  case False
  with assms show ?thesis by (simp add: getSome_fetch_def)
next
  case True
  with assms(2) have hm: "m_hasMore s" and nd: "\<not> m_done s" and co: "cursor_ok env s"
    by (auto simp: get_ready_def)
  let ?tf = "min (DefaultBatchSize env) n"
  obtain st got s1 where g: "getBlock ?tf s = ((st, got), s1)"
    by (cases "getBlock ?tf s") auto
  note sf = scan_fetch [OF True g, of env]
  note gc = getBlock_cases [OF g]
  note gk = getBlock_cursor [OF g]
  from gk co cursor_ok_cong [of s1 s env] have co1: "cursor_ok env s1" by simp
  show ?thesis
  proof (cases "st = WAITING")
    case w: True
    with gc have "length (m_dependencies s1) < length (m_dependencies s)"
      by (auto split: if_splits)
    then have m: "(s1, s) \<in> M5 env" by (intro M3_M5 M3_deps)
    from assms True g w have "r = Some (Inr (WAITING, None))" "s0 = s1"
      by (auto simp: getSome_fetch_def)
    with w sf m gk hm nd co1 show ?thesis
      by (simp add: get_step_ok_def matches_left_def get_ready_def)
  next
    case nw: False
    show ?thesis
    proof (cases got)
      case False
      with assms True g nw
      have "r = Some (Inr (DONE, None))"
        by (auto simp: getSome_fetch_def Let_def)
      with False nw sf show ?thesis
        by (simp add: get_step_ok_def matches_left_def)
    next
      case got: True
      obtain e s3 where rs: "reset env (s1\<lparr>m_upstreamState := st, m_pos := 0\<rparr>) = (e, s3)"
        by (cases "reset env (s1\<lparr>m_upstreamState := st, m_pos := 0\<rparr>)")
      from reset_frame [OF rs] gk hm nd have f3: "m_hasMore s3" "\<not> m_done s3"
        by (simp_all add: ctl_of_def)
      from assms True g nw got rs
      have r: "r = (case e of Some err \<Rightarrow> Some (Inl err) | None \<Rightarrow> None)" "s0 = s3"
        by (cases e; auto simp: getSome_fetch_def Let_def)+
      show ?thesis
      proof (cases e)
        case (Some err)
        with r nw got rs sf show ?thesis
          by (simp add: get_step_ok_def matches_left_def)
      next
        case None
        with rs have "cursor_ok env s3" by (intro cursor_ok_None reset_cursor) simp
        with None r nw got rs sf f3 show ?thesis
          by (simp add: matches_left_def get_ready_def)
      qed
    qed
  qed
qed

lemma getSome_inner_scan:
  "getSome_inner env n s = (r, s1) \<Longrightarrow> get_ready env s \<Longrightarrow>
   (case r of
      None \<Rightarrow> matches_left env n s1 = matches_left env n s \<and> get_ready env s1 \<and> le5 env s1 s
    | Some x \<Rightarrow> get_step_ok env n s x s1)"
proof (induction env n s arbitrary: r s1 rule: getSome_inner.induct)
  case (1 env n s)
  let ?tf = "min (DefaultBatchSize env) n"
  obtain r0 s0 where f: "getSome_fetch env n s = (r0, s0)"
    by (cases "getSome_fetch env n s")
  note fs = getSome_fetch_scan [OF f "1.prems"(2)]
  note fc = getSome_fetch_cases [OF f]
  show ?case
  proof (cases r0)
    case (Some x)
    with f "1.prems"(1) have "r = Some x" "s1 = s0"
      by (subst (asm) getSome_inner.simps, simp)+
    with Some fs show ?thesis by simp
  next
    case None
    with fs have v0: "matches_left env n s0 = matches_left env n s" and g0: "get_ready env s0"
      by simp_all
    from None fc have b0: "m_buffer s0 \<noteq> []" and rel: "s0 = s \<or> (s0, s) \<in> M3"
      by (auto intro: M3_deps)
    from rel have le0: "le5 env s0 s" by (auto intro: M5_le5 M3_M5)
    from b0 obtain cur rest where b: "m_buffer s0 = cur # rest" by (cases "m_buffer s0") auto
    show ?thesis
    proof (cases "m_hasMore s0")
      case True
      with f None b "1.prems"(1) have "r = None" "s1 = s0"
        by (subst (asm) getSome_inner.simps, simp)+
      with v0 g0 le0 show ?thesis by simp
    next
      case nhm: False
      with g0 have z0: "remaining env s0 = 0" and nd0: "\<not> m_done s0" and co0: "cursor_ok env s0"
        by (simp_all add: get_ready_def)
      let ?s2 = "s0\<lparr>m_hasMore := True\<rparr>"
      show ?thesis
      proof (cases "size_blk cur \<le> m_pos s0 + 1")
        case True
        let ?t = "?s2\<lparr>m_buffer := rest, m_pos := 0\<rparr>"
        from f None b nhm True "1.prems"(1)
        have rec: "getSome_inner env n ?t = (r, s1)"
          by (subst (asm) getSome_inner.simps) simp
        have gt: "get_ready env ?t"
          using nd0 co0 by (simp add: get_ready_def)
        have "m_buffer ?t = rest" "m_pos ?t = 0" "m_dependencies ?t = m_dependencies s0"
          "pred_of ?t = pred_of s0" "remaining env ?t = 0" using z0 by simp_all
        from scan_pop [OF b True this, of ?tf] z0 v0
        have vt: "matches_left env n ?t = matches_left env n s"
          by (simp add: matches_left_def)
        have "(?t, s0) \<in> M3" using b by (simp add: M3_def)
        then have "le5 env ?t s0" by (intro M5_le5 M3_M5)
        from this le0 have let': "le5 env ?t s" by (rule le5_trans)
        from "1.IH"(1) [OF f [symmetric] None b _ refl _ rec gt] nhm True
        have ih: "case r of
                None \<Rightarrow> matches_left env n s1 = matches_left env n ?t \<and> get_ready env s1
                          \<and> le5 env s1 ?t
              | Some x \<Rightarrow> get_step_ok env n ?t x s1" by simp
        show ?thesis
        proof (cases r)
          case None
          with ih vt let' show ?thesis by (auto intro: le5_trans)
        next
          case (Some x)
          with ih have "get_step_ok env n ?t x s1" by simp
          from get_step_ok_transfer [OF this vt let'] Some show ?thesis by simp
        qed
      next
        case False
        let ?u = "?s2\<lparr>m_pos := m_pos ?s2 + 1\<rparr>"
        obtain e s3 where rs: "reset env ?u = (e, s3)" by (cases "reset env ?u")
        from reset_frame [OF rs] have c3: "ctl_of s3 = ctl_of ?u" .
        have "m_buffer ?u = m_buffer s0" "m_pos ?u = m_pos s0 + 1"
          "m_dependencies ?u = m_dependencies s0" "pred_of ?u = pred_of s0" by simp_all
        from scan_row [OF b False this rs, of ?tf] z0 v0
        have sr: "matches_left env n s
                    = (case e of Some err \<Rightarrow> Inl err | None \<Rightarrow> matches_left env n s3)"
          by (simp add: matches_left_def cong: option.case_cong)
        show ?thesis
        proof (cases e)
          case (Some err)
          with f None b nhm False rs "1.prems"(1) have "r = Some (Inl err)"
            by (subst (asm) getSome_inner.simps) simp
          with Some sr show ?thesis by (simp add: get_step_ok_def)
        next
          case eN: None
          from f \<open>r0 = None\<close> b nhm False rs eN "1.prems"(1)
          have rec: "getSome_inner env n s3 = (r, s1)"
            by (subst (asm) getSome_inner.simps) simp
          from eN sr have v3: "matches_left env n s3 = matches_left env n s" by simp
          from eN rs have "cursor_ok env s3" by (intro cursor_ok_None reset_cursor) simp
          with c3 nd0 have g3: "get_ready env s3"
            by (simp add: get_ready_def ctl_of_def)
          have "(?u, s0) \<in> M3" using b False by (simp add: M3_def)
          with M3_ctl [OF c3] have "(s3, s0) \<in> M3" by simp
          then have "le5 env s3 s0" by (intro M5_le5 M3_M5)
          from this le0 have le3: "le5 env s3 s" by (rule le5_trans)
          from "1.IH"(2) [OF f [symmetric] \<open>r0 = None\<close> b _ refl _ _ _ rec g3] nhm False rs eN
          have ih: "case r of
                None \<Rightarrow> matches_left env n s1 = matches_left env n s3 \<and> get_ready env s1
                          \<and> le5 env s1 s3
              | Some x \<Rightarrow> get_step_ok env n s3 x s1" by simp
          show ?thesis
          proof (cases r)
            case None
            with ih v3 le3 show ?thesis by (auto intro: le5_trans)
          next
            case (Some x)
            with ih have "get_step_ok env n s3 x s1" by simp
            from get_step_ok_transfer [OF this v3 le3] Some show ?thesis by simp
          qed
        qed
      qed
    qed
  qed
qed

lemma getSome_finish_rows:
  assumes "res ctx = Some b" and "size_blk b = n" and "pos ctx \<le> n"
    and "m_buffer s \<noteq> []" and "\<not> m_done s"
  shows "\<exists>blk. getSome_finish env n ctx s
                 = (Inr (HASMORE, Some blk),
                    s\<lparr>m_scannedIndex := int64_add (m_scannedIndex s) (pos ctx)\<rparr>)
               \<and> size_blk blk = pos ctx"
  using assms
  by (auto simp: getSome_finish_def Let_def getHasMoreState_def)

lemma getSome_body_scan:
  assumes "0 < n" and "joins_succeed env" and "\<not> killed env" and "\<not> failurePoint env"
    and "get_ready env s" and "pos ctx = 0"
  shows "case getSome_body env n ctx s of
           Inl (r, s') \<Rightarrow> get_step_ok env n s r s'
         | Inr (ctx', s') \<Rightarrow> pos ctx' = 0 \<and> matches_left env n s' = matches_left env n s
                               \<and> get_ready env s' \<and> le5 env s' s"
proof -
  let ?tf = "min (DefaultBatchSize env) n"
  obtain r1 s1 where i: "getSome_inner env n s = (r1, s1)"
    by (cases "getSome_inner env n s")
  note sc = getSome_inner_scan [OF i assms(5)]
  note ic = getSome_inner_cases [OF i]
  show ?thesis
  proof (cases r1)
    case (Some x)
    with i sc show ?thesis by (simp add: getSome_body_def)
  next
    case None
    with sc have v1: "matches_left env n s1 = matches_left env n s" and g1: "get_ready env s1"
      and le1: "le5 env s1 s" by simp_all
    from None ic have b1: "m_buffer s1 \<noteq> []" and hm1: "m_hasMore s1" by auto
    from g1 have nd1: "\<not> m_done s1" and co1: "cursor_ok env s1" by (simp_all add: get_ready_def)
    from b1 obtain cur rest where b: "m_buffer s1 = cur # rest" by (cases "m_buffer s1") auto
    let ?ctx1 = "ctx\<lparr>res := Some (inheritRegisters (nrInputRegisters env) cur (m_pos s1)
                                  (requestBlock n (nrOutputRegisters env)))\<rparr>"
    obtain hm ctx2 s2 where nx: "next_v env ?ctx1 n s1 = (hm, ctx2, s2)"
      by (cases "next_v env ?ctx1 n s1")
    note fr = next_v_frame [OF nx]
    note bu = next_v_budget [OF nx]
    note cn = next_v_count [OF assms(2) co1 nx]
    let ?k = "min n (remaining env s1)"
    from cn(1) assms(6) have p2: "pos ctx2 = ?k" by simp
    let ?s3 = "s2\<lparr>m_hasMore := hm\<rparr>"
    from fr have f3: "m_buffer ?s3 = m_buffer s1" "m_pos ?s3 = m_pos s1"
      "m_dependencies ?s3 = m_dependencies s1" "pred_of ?s3 = pred_of s1" "m_done ?s3 = m_done s1"
      by (simp_all add: ctl_of_def)
    from cn(2) have r3: "remaining env ?s3 + ?k = remaining env s1" by simp
    from cn(3) have co3: "cursor_ok env ?s3" by simp
    show ?thesis
    proof (cases "pos ctx2 = 0")
      case True
      with p2 assms(1) have z1: "remaining env s1 = 0" by (simp add: min_def split: if_splits)
      with r3 have z3: "remaining env ?s3 = 0" by simp
      from i None b assms(3,4) nx True
      have body: "getSome_body env n ctx s = Inr (ctx2, ?s3)"
        by (simp add: getSome_body_def Let_def)
      from f3 z1 z3 have "scan_eq env ?s3 s1" by (simp add: scan_eq_def)
      from scan_total_cong [OF this] v1
      have v3: "matches_left env n ?s3 = matches_left env n s" by (simp add: matches_left_def)
      from f3 nd1 co3 z3 b1 have g3: "get_ready env ?s3" by (simp add: get_ready_def)
      from f3 z1 z3 have "le5 env ?s3 s1" by (intro le5_same_row) simp_all
      from this le1 have "le5 env ?s3 s" by (rule le5_trans)
      with body True v3 g3 show ?thesis by simp
    next
      case pz: False
      from bu(1) obtain b2 where rb: "res ctx2 = Some b2" and sz: "size_blk b2 = n"
        by (cases "res ctx2") auto
      from p2 have pn: "pos ctx2 \<le> n" by simp
      let ?s' = "?s3\<lparr>m_scannedIndex := int64_add (m_scannedIndex ?s3) (pos ctx2)\<rparr>"
      from getSome_finish_rows [OF rb sz pn, of ?s3 env] f3 b1 nd1
      obtain blk where fin: "getSome_finish env n ctx2 ?s3 = (Inr (HASMORE, Some blk), ?s')"
        and sb: "size_blk blk = pos ctx2" by auto
      from i None b assms(3,4) nx pz fin
      have body: "getSome_body env n ctx s = Inl (Inr (HASMORE, Some blk), ?s')"
        by (simp add: getSome_body_def Let_def)
      have f': "m_buffer ?s' = m_buffer s1" "m_pos ?s' = m_pos s1"
        "m_dependencies ?s' = m_dependencies s1" "pred_of ?s' = pred_of s1"
        using f3 by simp_all
      have r': "remaining env ?s' + ?k = remaining env s1" using r3 by simp
      from scan_skip [OF b1 f' r', of ?tf] v1 sb p2
      have st: "plus_count (size_blk blk) (matches_left env n ?s') = matches_left env n s"
        by (simp add: matches_left_def)
      from pz p2 have "0 < ?k" by simp
      with r' have "remaining env ?s' < remaining env s1" by linarith
      from M5_same_row [OF f'(3,1,2) this] le1 have m: "(?s', s) \<in> M5 env"
        by (rule M5_le5_trans)
      have "\<not> hm \<longrightarrow> remaining env ?s' = 0"
        using cn(4) r' by (auto simp: min_def split: if_splits)
      with f3 nd1 co3 b1 have g': "get_ready env ?s'" by (simp add: get_ready_def)
      from body st g' m show ?thesis by (simp add: get_step_ok_def)
    qed
  qed
qed

lemma getSome_loop_scan:
  assumes "0 < n" and "joins_succeed env" and "\<not> killed env" and "\<not> failurePoint env"
  shows "get_ready env s \<Longrightarrow> pos ctx = 0 \<Longrightarrow> getSome_loop env n ctx s = Some (r, s') \<Longrightarrow>
         get_step_ok env n s r s'"
proof (induction s arbitrary: ctx rule: wf_induct_rule [OF wf_M4])
  case (1 s)
  note bs = getSome_body_scan [OF assms "1.prems"(1,2)]
  note bc = getSome_body_cases [OF assms(1), where env = env and ctx = ctx and s = s]
  show ?case
  proof (cases "getSome_body env n ctx s")
    case (Inl p)
    with "1.prems"(3) have "p = (r, s')"
      by (subst (asm) getSome_loop.simps) simp
    with Inl bs show ?thesis by simp
  next
    case (Inr q)
    obtain ctx1 s1 where q: "q = (ctx1, s1)" by (cases q)
    with Inr "1.prems"(3) have l1: "getSome_loop env n ctx1 s1 = Some (r, s')"
      by (subst (asm) getSome_loop.simps) simp
    from Inr q bc have m: "(s1, s) \<in> M4" by simp
    from Inr q bs have p1: "pos ctx1 = 0"
      and v1: "matches_left env n s1 = matches_left env n s"
      and g1: "get_ready env s1" and le1: "le5 env s1 s" by simp_all
    from "1.IH" [OF m g1 p1 l1] have "get_step_ok env n s1 r s'" .
    from get_step_ok_transfer [OF this v1 le1] show ?thesis .
  qed
qed

lemma getSome_sum_scan:
  assumes "0 < n" and "joins_succeed env" and "\<not> killed env" and "\<not> failurePoint env"
  shows "get_ready env s \<Longrightarrow>
         getSome_sum env n acc s = Some (plus_count acc (matches_left env n s))"
proof (induction s arbitrary: acc rule: wf_induct_rule [OF wf_M5 [of env]])
  case (1 s)
  let ?ctx = "\<lparr>curRegs = nrInputRegisters env, res = None, pos = 0\<rparr>"
  from getSome_loop_total [OF assms(1), of env ?ctx s]
  obtain r s' where l: "getSome_loop env n ?ctx s = Some (r, s')" by blast
  from "1.prems" have "\<not> m_done s" by (simp add: get_ready_def)
  with l have gs: "getSome env n s = Some (r, s')" by (simp add: getSome_def)
  have "pos ?ctx = 0" by simp
  note ok = getSome_loop_scan [OF assms "1.prems" this l]
  show ?case
  proof (cases r)
    case (Inl e)
    with ok gs show ?thesis
      by (subst getSome_sum.simps) (simp add: get_step_ok_def)
  next
    case (Inr p)
    obtain st b where p: "p = (st, b)" by (cases p)
    show ?thesis
    proof (cases "st = DONE")
      case True
      with ok Inr p gs show ?thesis
        by (subst getSome_sum.simps) (simp add: get_step_ok_def)
    next
      case False
      with ok Inr p
      have step: "plus_count (rows_of b) (matches_left env n s') = matches_left env n s"
        and g: "get_ready env s'" and m: "(s', s) \<in> M5 env"
        by (simp_all add: get_step_ok_def)
      from "1.IH" [OF m g, of "acc + rows_of b"] step
      have "getSome_sum env n (acc + rows_of b) s' = Some (plus_count acc (matches_left env n s))"
        by (metis plus_count_simps(4))
      with False Inr p gs show ?thesis
        by (subst getSome_sum.simps) simp
    qed
  qed
qed

lemma get_ready_new: "get_ready env (new_ViewBlock env deps)"
  by (simp add: get_ready_def new_ViewBlock_def cursor_ok_def)

lemma joins_succeed_ex: "joins_succeed (ex_env strat ex_store_full)"
  by (auto simp: joins_succeed_def ex_env_def ex_segment_def ex_store_full_def
                 readDocument_sub_def less_Suc_eq
           split: PreparedFilter.splits)

text \<open>
  C3: for every snapshot in which the storage join of every matched document succeeds,
  every upstream and every \<open>at_most > 0\<close>, when the query is not killed and the failure
  point is not set: \<open>getSome(at_most)\<close> repeated until DONE and \<open>skipSome(at_most)\<close>
  repeated until DONE, from the block as constructed, both end, and the rows of the
  batches add up to the sum of the counts, or both throw the same exception (of the
  predicate compiler).
\<close>

theorem getSome_total_is_skipSome_total:
  assumes "0 < n" and "joins_succeed env" and "\<not> killed env" and "\<not> failurePoint env"
  shows "\<exists>total. getSome_sum env n 0 (new_ViewBlock env deps) = Some total
               \<and> skipSome_sum env n 0 (new_ViewBlock env deps) = Some total"
proof -
  let ?s = "new_ViewBlock env deps"
  have i: "\<not> m_done ?s" "m_inflight ?s < n" "m_inflight ?s = 0"
    using assms(1) by (simp_all add: new_ViewBlock_def)
  from getSome_sum_scan [OF assms get_ready_new, of 0 deps]
  have g: "getSome_sum env n 0 ?s = Some (matches_left env n ?s)" by simp
  from skipSome_sum_scan [OF assms(1) i(1,2), of env 0] i(3)
  have "skipSome_sum env n 0 ?s = Some (matches_left env n ?s)" by (simp add: pending_def)
  with g show ?thesis by simp
qed

theorem getSome_total_is_skipSome_total_witness:
  "getSome_sum (ex_env Unordered ex_store_full) 2 0
     (new_ViewBlock (ex_env Unordered ex_store_full)
        [\<lambda>n. (WAITING, None), \<lambda>n. (HASMORE, Some ex_block2), \<lambda>n. (DONE, Some ex_block)])
     = Some (Inr 12)
   \<and> skipSome_sum (ex_env Unordered ex_store_full) 2 0
     (new_ViewBlock (ex_env Unordered ex_store_full)
        [\<lambda>n. (WAITING, None), \<lambda>n. (HASMORE, Some ex_block2), \<lambda>n. (DONE, Some ex_block)])
     = Some (Inr 12)"
proof -
  let ?env = "ex_env Unordered ex_store_full"
  let ?deps = "[\<lambda>n. (WAITING, None), \<lambda>n. (HASMORE, Some ex_block2), \<lambda>n. (DONE, Some ex_block)]"
  have g: "getSome_sum ?env 2 0 (new_ViewBlock ?env ?deps) = Some (Inr 12)" by code_simp
  have h: "(0::nat) < 2" "\<not> killed ?env" "\<not> failurePoint ?env"
    by (simp_all add: ex_env_def)
  from getSome_total_is_skipSome_total [OF h(1) joins_succeed_ex h(2,3), where deps = ?deps]
  obtain total where "getSome_sum ?env 2 0 (new_ViewBlock ?env ?deps) = Some total"
    and "skipSome_sum ?env 2 0 (new_ViewBlock ?env ?deps) = Some total" by blast
  with g show ?thesis by simp
qed

theorem getSome_total_counterexample:
  "getSome_sum (ex_env Scored ex_store_gap) 2 0
     (new_ViewBlock (ex_env Scored ex_store_gap) [\<lambda>n. (HASMORE, Some ex_block)]) = Some (Inr 3)
   \<and> skipSome_sum (ex_env Scored ex_store_gap) 2 0
     (new_ViewBlock (ex_env Scored ex_store_gap) [\<lambda>n. (HASMORE, Some ex_block)]) = Some (Inr 4)"
  by code_simp

section \<open>The resets of a call\<close>

subsection \<open>The calls of reset() made by a call of getSome or skipSome\<close>

text \<open>
  \<open>getSome_inner_resets env n s t\<close>: the inner loop of \<open>getSome(n)\<close>, entered with the
  members \<open>s\<close>, calls \<open>reset()\<close> with the members \<open>t\<close>; after a fetch from the upstream, or
  on going to the next row of the buffer, in the first round of the loop or, the resets
  before having returned, in a later one.
\<close>

inductive getSome_inner_resets :: "Env \<Rightarrow> nat \<Rightarrow> ViewBlock \<Rightarrow> ViewBlock \<Rightarrow> bool"
  for env :: Env and n :: nat where
  after_fetch:
    "\<lbrakk>m_buffer s = []; getBlock (min (DefaultBatchSize env) n) s = ((st, True), s0);
      st \<noteq> WAITING\<rbrakk>
     \<Longrightarrow> getSome_inner_resets env n s (s0\<lparr>m_upstreamState := st, m_pos := 0\<rparr>)"
| next_row:
    "\<lbrakk>getSome_fetch env n s = (None, s1); m_buffer s1 = cur # rest; \<not> m_hasMore s1;
      \<not> size_blk cur \<le> m_pos s1 + 1\<rbrakk>
     \<Longrightarrow> getSome_inner_resets env n s (s1\<lparr>m_hasMore := True, m_pos := m_pos s1 + 1\<rparr>)"
| after_pop:
    "\<lbrakk>getSome_fetch env n s = (None, s1); m_buffer s1 = cur # rest; \<not> m_hasMore s1;
      size_blk cur \<le> m_pos s1 + 1;
      getSome_inner_resets env n (s1\<lparr>m_hasMore := True, m_buffer := rest, m_pos := 0\<rparr>) t\<rbrakk>
     \<Longrightarrow> getSome_inner_resets env n s t"
| after_row:
    "\<lbrakk>getSome_fetch env n s = (None, s1); m_buffer s1 = cur # rest; \<not> m_hasMore s1;
      \<not> size_blk cur \<le> m_pos s1 + 1;
      reset env (s1\<lparr>m_hasMore := True, m_pos := m_pos s1 + 1\<rparr>) = (None, s3);
      getSome_inner_resets env n s3 t\<rbrakk>
     \<Longrightarrow> getSome_inner_resets env n s t"

text \<open>The same for the outer loop, over its rounds, and for the call.\<close>

inductive getSome_loop_resets :: "Env \<Rightarrow> nat \<Rightarrow> ReadContext \<Rightarrow> ViewBlock \<Rightarrow> ViewBlock \<Rightarrow> bool"
  for env :: Env and n :: nat where
  this_round:
    "getSome_inner_resets env n s t \<Longrightarrow> getSome_loop_resets env n ctx s t"
| later_round:
    "\<lbrakk>getSome_body env n ctx s = Inr (ctx1, s1); getSome_loop_resets env n ctx1 s1 t\<rbrakk>
     \<Longrightarrow> getSome_loop_resets env n ctx s t"

definition getSome_resets :: "Env \<Rightarrow> nat \<Rightarrow> ViewBlock \<Rightarrow> ViewBlock \<Rightarrow> bool" where
  "getSome_resets env n s t \<longleftrightarrow>
     \<not> m_done s
     \<and> getSome_loop_resets env n \<lparr>curRegs = nrInputRegisters env, res = None, pos = 0\<rparr> s t"

inductive skipSome_loop_resets :: "Env \<Rightarrow> nat \<Rightarrow> ViewBlock \<Rightarrow> ViewBlock \<Rightarrow> bool"
  for env :: Env and n :: nat where
  after_fetch:
    "\<lbrakk>m_inflight s < n; m_buffer s = [];
      getBlock (min (DefaultBatchSize env) n) s = ((st, True), s0); st \<noteq> WAITING\<rbrakk>
     \<Longrightarrow> skipSome_loop_resets env n s (s0\<lparr>m_upstreamState := st, m_pos := 0\<rparr>)"
| next_row:
    "\<lbrakk>m_inflight s < n; skipSome_fetch env n s = (None, s1); m_buffer s1 = cur # rest;
      skip_v env (n - m_inflight s1) s1 = (k, s2); m_inflight s2 + k < n;
      \<not> size_blk cur \<le> m_pos s2 + 1\<rbrakk>
     \<Longrightarrow> skipSome_loop_resets env n s
           (s2\<lparr>m_inflight := m_inflight s2 + k, m_pos := m_pos s2 + 1\<rparr>)"
| later_round:
    "\<lbrakk>m_inflight s < n; skipSome_body env n s = Inr s1; skipSome_loop_resets env n s1 t\<rbrakk>
     \<Longrightarrow> skipSome_loop_resets env n s t"

definition skipSome_resets :: "Env \<Rightarrow> nat \<Rightarrow> ViewBlock \<Rightarrow> ViewBlock \<Rightarrow> bool" where
  "skipSome_resets env n s t \<longleftrightarrow> \<not> m_done s \<and> skipSome_loop_resets env n s t"













subsection \<open>Properties of the predicate and the cursor that the calls keep\<close>

text \<open>
  The members \<open>getSome\<close> and \<open>skipSome\<close> change only through \<open>reset()\<close>, \<open>next\<close> and
  \<open>skip\<close>: the compiled predicate with its flags, and the read cursor. A property of
  these members that \<open>reset()\<close>, \<open>next\<close> and \<open>skip\<close> keep is kept by every call.
\<close>

definition scan_of ::
  "ViewBlock \<Rightarrow> (bool \<times> bool \<times> PreparedFilter \<times> Order \<times> RowCtx) \<times> nat \<times> doc_id list option
                \<times> DocumentPrimaryKey list" where
  "scan_of s = (pred_of s, m_readerOffset s, m_itr s, m_keys s)"

lemma scan_of_update [simp]:
  "scan_of (s\<lparr>m_buffer := b\<rparr>) = scan_of s"
  "scan_of (s\<lparr>m_pos := p\<rparr>) = scan_of s"
  "scan_of (s\<lparr>m_dependencies := d\<rparr>) = scan_of s"
  "scan_of (s\<lparr>m_upstreamState := u\<rparr>) = scan_of s"
  "scan_of (s\<lparr>m_inflight := i\<rparr>) = scan_of s"
  "scan_of (s\<lparr>m_hasMore := h\<rparr>) = scan_of s"
  "scan_of (s\<lparr>m_done := dn\<rparr>) = scan_of s"
  "scan_of (s\<lparr>m_scannedIndex := x\<rparr>) = scan_of s"
  by (simp_all add: scan_of_def)

lemma getBlock_scan_of: "getBlock n s = (x, s') \<Longrightarrow> scan_of s' = scan_of s"
  by (auto simp: getBlock_def split: list.splits if_splits option.splits)

lemma getHasMoreState_scan_of: "getHasMoreState s = (st, s') \<Longrightarrow> scan_of s' = scan_of s"
  by (auto simp: getHasMoreState_def split: if_splits)

lemma getSome_fetch_keeps:
  assumes cong: "\<And>s s'. scan_of s' = scan_of s \<Longrightarrow> I s \<Longrightarrow> I s'"
    and rs: "\<And>s e s'. I s \<Longrightarrow> reset env s = (e, s') \<Longrightarrow> I s'"
    and f: "getSome_fetch env n s = (r, s')" and i: "I s"
  shows "I s'"
proof (cases "m_buffer s = []")
  case False
  with f i show ?thesis by (simp add: getSome_fetch_def)
next
  case True
  obtain st got s0 where g: "getBlock (min (DefaultBatchSize env) n) s = ((st, got), s0)"
    by (cases "getBlock (min (DefaultBatchSize env) n) s") auto
  from cong [OF getBlock_scan_of [OF g] i] have i0: "I s0" .
  show ?thesis
  proof (cases "st = WAITING")
    case w: True
    with f True g have "s' = s0" by (simp add: getSome_fetch_def)
    with i0 show ?thesis by simp
  next
    case nw: False
    show ?thesis
    proof (cases got)
      case False
      with f True g nw have "s' = s0\<lparr>m_upstreamState := st, m_done := True\<rparr>"
        by (simp add: getSome_fetch_def Let_def)
      moreover have "I (s0\<lparr>m_upstreamState := st, m_done := True\<rparr>)"
        by (rule cong [OF _ i0]) simp
      ultimately show ?thesis by simp
    next
      case got: True
      obtain e s3 where r3: "reset env (s0\<lparr>m_upstreamState := st, m_pos := 0\<rparr>) = (e, s3)"
        by (cases "reset env (s0\<lparr>m_upstreamState := st, m_pos := 0\<rparr>)")
      have "I (s0\<lparr>m_upstreamState := st, m_pos := 0\<rparr>)"
        by (rule cong [OF _ i0]) simp
      from rs [OF this r3] have "I s3" .
      moreover from f True g nw got r3 have "s' = s3"
        by (cases e) (simp_all add: getSome_fetch_def Let_def)
      ultimately show ?thesis by simp
    qed
  qed
qed

lemma getSome_inner_keeps:
  assumes cong: "\<And>s s'. scan_of s' = scan_of s \<Longrightarrow> I s \<Longrightarrow> I s'"
    and rs: "\<And>s e s'. I s \<Longrightarrow> reset env s = (e, s') \<Longrightarrow> I s'"
  shows "getSome_inner env n s = (r, s') \<Longrightarrow> I s \<Longrightarrow> I s'"
  using cong rs
proof (induction env n s arbitrary: r s' rule: getSome_inner.induct)
  case (1 env n s)
  note cong = "1.prems"(3) and rs = "1.prems"(4)
  obtain r1 s1 where f: "getSome_fetch env n s = (r1, s1)"
    by (cases "getSome_fetch env n s")
  from getSome_fetch_keeps [where I = I and env = env, OF cong rs f "1.prems"(2)] have i1: "I s1" .
  show ?case
  proof (cases r1)
    case (Some x)
    with f "1.prems"(1) have "s' = s1"
      by (subst (asm) getSome_inner.simps) simp
    with i1 show ?thesis by simp
  next
    case None
    show ?thesis
    proof (cases "m_buffer s1")
      case Nil
      with f None "1.prems"(1) have "s' = s1"
        by (subst (asm) getSome_inner.simps) simp
      with i1 show ?thesis by simp
    next
      case (Cons cur rest)
      show ?thesis
      proof (cases "m_hasMore s1")
        case True
        with f None Cons "1.prems"(1) have "s' = s1"
          by (subst (asm) getSome_inner.simps) simp
        with i1 show ?thesis by simp
      next
        case nhm: False
        let ?s2 = "s1\<lparr>m_hasMore := True\<rparr>"
        show ?thesis
        proof (cases "size_blk cur \<le> m_pos s1 + 1")
          case True
          let ?t = "?s2\<lparr>m_buffer := rest, m_pos := 0\<rparr>"
          from f None Cons nhm True "1.prems"(1)
          have rec: "getSome_inner env n ?t = (r, s')"
            by (subst (asm) getSome_inner.simps) simp
          have it: "I ?t" by (rule cong [OF _ i1]) simp
          from "1.IH"(1) [OF f [symmetric] None Cons _ refl _ rec it cong rs] nhm True
          show ?thesis by simp
        next
          case False
          let ?u = "?s2\<lparr>m_pos := m_pos ?s2 + 1\<rparr>"
          obtain e s3 where r3: "reset env ?u = (e, s3)" by (cases "reset env ?u")
          have "I ?u" by (rule cong [OF _ i1]) simp
          from rs [OF this r3] have i3: "I s3" .
          show ?thesis
          proof (cases e)
            case (Some err)
            with f None Cons nhm False r3 "1.prems"(1) have "s' = s3"
              by (subst (asm) getSome_inner.simps) simp
            with i3 show ?thesis by simp
          next
            case eN: None
            from f \<open>r1 = None\<close> Cons nhm False r3 eN "1.prems"(1)
            have rec: "getSome_inner env n s3 = (r, s')"
              by (subst (asm) getSome_inner.simps) simp
            from "1.IH"(2) [OF f [symmetric] \<open>r1 = None\<close> Cons _ refl _ _ _ rec i3 cong rs]
              nhm False r3 eN
            show ?thesis by simp
          qed
        qed
      qed
    qed
  qed
qed

lemma getSome_finish_scan_of: "getSome_finish env n ctx s = (r, s') \<Longrightarrow> scan_of s' = scan_of s"
  by (auto simp: getSome_finish_def Let_def split: prod.splits dest!: getHasMoreState_scan_of)

lemma getSome_body_keeps:
  assumes cong: "\<And>s s'. scan_of s' = scan_of s \<Longrightarrow> I s \<Longrightarrow> I s'"
    and rs: "\<And>s e s'. I s \<Longrightarrow> reset env s = (e, s') \<Longrightarrow> I s'"
    and nx: "\<And>s c l hm c' s'. I s \<Longrightarrow> next_v env c l s = (hm, c', s') \<Longrightarrow> I s'"
    and i: "I s"
  shows "case getSome_body env n ctx s of Inl (r, s') \<Rightarrow> I s' | Inr (c, s') \<Rightarrow> I s'"
proof -
  obtain r1 s1 where g: "getSome_inner env n s = (r1, s1)" by (cases "getSome_inner env n s")
  from getSome_inner_keeps [where I = I and env = env, OF cong rs g i] have i1: "I s1" .
  show ?thesis
  proof (cases r1)
    case (Some x)
    with g i1 show ?thesis by (simp add: getSome_body_def)
  next
    case None
    show ?thesis
    proof (cases "m_buffer s1")
      case Nil
      with g None i1 show ?thesis by (simp add: getSome_body_def)
    next
      case (Cons cur rest)
      let ?ctx1 = "ctx\<lparr>res := Some (inheritRegisters (nrInputRegisters env) cur (m_pos s1)
                                    (requestBlock n (nrOutputRegisters env)))\<rparr>"
      obtain hm ctx2 s2 where n2: "next_v env ?ctx1 n s1 = (hm, ctx2, s2)"
        by (cases "next_v env ?ctx1 n s1")
      from nx [OF i1 n2] have i2: "I s2" .
      have i3: "I (s2\<lparr>m_hasMore := hm\<rparr>)" by (rule cong [OF _ i2]) simp
      obtain r s' where fin: "getSome_finish env n ctx2 (s2\<lparr>m_hasMore := hm\<rparr>) = (r, s')"
        by (cases "getSome_finish env n ctx2 (s2\<lparr>m_hasMore := hm\<rparr>)")
      from cong [OF getSome_finish_scan_of [OF fin] i3] have "I s'" .
      with g None Cons n2 fin i1 i3 show ?thesis
        by (simp add: getSome_body_def Let_def)
    qed
  qed
qed

lemma getSome_loop_keeps:
  assumes cong: "\<And>s s'. scan_of s' = scan_of s \<Longrightarrow> I s \<Longrightarrow> I s'"
    and rs: "\<And>s e s'. I s \<Longrightarrow> reset env s = (e, s') \<Longrightarrow> I s'"
    and nx: "\<And>s c l hm c' s'. I s \<Longrightarrow> next_v env c l s = (hm, c', s') \<Longrightarrow> I s'"
    and l: "getSome_loop env n ctx s = Some (r, s')" and i: "I s"
  shows "I s'"
proof -
  let ?P = "\<lambda>env' (n :: nat) (ctx :: ReadContext) s (y :: GetResult \<times> ViewBlock).
              env' = env \<longrightarrow> I s \<longrightarrow> I (snd y)"
  have step: "?P env' n ctx s y"
    if ih: "\<And>env n ctx s y. loop env n ctx s = Some y \<Longrightarrow> ?P env n ctx s y"
      and eq: "(case getSome_body env' n ctx s of
                  Inl r \<Rightarrow> Some r
                | Inr (ctx1, s1) \<Rightarrow> loop env' n ctx1 s1) = Some y"
    for loop env' n ctx s y
  proof (intro impI)
    assume e: "env' = env" and i0: "I s"
    have b: "case getSome_body env n ctx s of Inl (r, s') \<Rightarrow> I s' | Inr (c, s') \<Rightarrow> I s'"
      by (rule getSome_body_keeps [where I = I, OF cong rs nx i0])
    show "I (snd y)"
    proof (cases "getSome_body env n ctx s")
      case (Inl p)
      with eq e b show ?thesis by (auto split: prod.splits)
    next
      case (Inr q)
      obtain ctx1 s1 where q: "q = (ctx1, s1)" by (cases q)
      with Inr eq e have "loop env n ctx1 s1 = Some y" by simp
      from ih [OF this] Inr q b show ?thesis by simp
    qed
  qed
  have "?P env n ctx s (r, s')"
  proof (rule getSome_loop.raw_induct [where P = ?P])
    fix loop env' n' ctx' s'' y'
    assume "\<And>n ctx s b y. loop n ctx s b = Some y \<Longrightarrow> ?P n ctx s b y"
      and "(case getSome_body env' n' ctx' s'' of
              Inl r \<Rightarrow> Some r
            | Inr (ctx1, s1) \<Rightarrow> loop env' n' ctx1 s1) = Some y'"
    then show "?P env' n' ctx' s'' y'" by (rule step)
  next
    show "getSome_loop env n ctx s = Some (r, s')" by fact
  qed
  with i show ?thesis by simp
qed

lemma getSome_keeps:
  assumes cong: "\<And>s s'. scan_of s' = scan_of s \<Longrightarrow> I s \<Longrightarrow> I s'"
    and rs: "\<And>s e s'. I s \<Longrightarrow> reset env s = (e, s') \<Longrightarrow> I s'"
    and nx: "\<And>s c l hm c' s'. I s \<Longrightarrow> next_v env c l s = (hm, c', s') \<Longrightarrow> I s'"
    and g: "getSome env n s = Some (r, s')" and i: "I s"
  shows "I s'"
proof (cases "m_done s")
  case True
  with g i show ?thesis by (simp add: getSome_def)
next
  case False
  with g have "getSome_loop env n \<lparr>curRegs = nrInputRegisters env, res = None, pos = 0\<rparr> s
                 = Some (r, s')" by (simp add: getSome_def)
  from getSome_loop_keeps [where I = I and env = env, OF cong rs nx this i] show ?thesis .
qed

lemma skipSome_done_scan_of: "skipSome_done s = (r, s') \<Longrightarrow> scan_of s' = scan_of s"
  by (auto simp: skipSome_done_def Let_def)

lemma skipSome_finish_scan_of: "skipSome_finish s = (r, s') \<Longrightarrow> scan_of s' = scan_of s"
  by (auto simp: skipSome_finish_def Let_def split: prod.splits dest!: getHasMoreState_scan_of)

lemma skipSome_fetch_keeps:
  assumes cong: "\<And>s s'. scan_of s' = scan_of s \<Longrightarrow> I s \<Longrightarrow> I s'"
    and rs: "\<And>s e s'. I s \<Longrightarrow> reset env s = (e, s') \<Longrightarrow> I s'"
    and f: "skipSome_fetch env n s = (r, s')" and i: "I s"
  shows "I s'"
proof (cases "m_buffer s = []")
  case False
  with f i show ?thesis by (simp add: skipSome_fetch_def)
next
  case True
  obtain st got s0 where g: "getBlock (min (DefaultBatchSize env) n) s = ((st, got), s0)"
    by (cases "getBlock (min (DefaultBatchSize env) n) s") auto
  from cong [OF getBlock_scan_of [OF g] i] have i0: "I s0" .
  show ?thesis
  proof (cases "st = WAITING")
    case w: True
    with f True g have "s' = s0" by (simp add: skipSome_fetch_def)
    with i0 show ?thesis by simp
  next
    case nw: False
    show ?thesis
    proof (cases got)
      case False
      obtain x sd where d: "skipSome_done (s0\<lparr>m_upstreamState := st, m_done := True\<rparr>) = (x, sd)"
        by (cases "skipSome_done (s0\<lparr>m_upstreamState := st, m_done := True\<rparr>)")
      have "I (s0\<lparr>m_upstreamState := st, m_done := True\<rparr>)"
        by (rule cong [OF _ i0]) simp
      from cong [OF skipSome_done_scan_of [OF d] this] have "I sd" .
      moreover from f True g nw False d have "s' = sd"
        by (simp add: skipSome_fetch_def Let_def)
      ultimately show ?thesis by simp
    next
      case got: True
      obtain e s3 where r3: "reset env (s0\<lparr>m_upstreamState := st, m_pos := 0\<rparr>) = (e, s3)"
        by (cases "reset env (s0\<lparr>m_upstreamState := st, m_pos := 0\<rparr>)")
      have "I (s0\<lparr>m_upstreamState := st, m_pos := 0\<rparr>)"
        by (rule cong [OF _ i0]) simp
      from rs [OF this r3] have "I s3" .
      moreover from f True g nw got r3 have "s' = s3"
        by (cases e) (simp_all add: skipSome_fetch_def Let_def)
      ultimately show ?thesis by simp
    qed
  qed
qed

lemma skipSome_body_keeps:
  assumes cong: "\<And>s s'. scan_of s' = scan_of s \<Longrightarrow> I s \<Longrightarrow> I s'"
    and rs: "\<And>s e s'. I s \<Longrightarrow> reset env s = (e, s') \<Longrightarrow> I s'"
    and sk: "\<And>s l k s'. I s \<Longrightarrow> skip_v env l s = (k, s') \<Longrightarrow> I s'"
    and i: "I s"
  shows "case skipSome_body env n s of Inl (r, s') \<Rightarrow> I s' | Inr s' \<Rightarrow> I s'"
proof -
  obtain r1 s1 where f: "skipSome_fetch env n s = (r1, s1)" by (cases "skipSome_fetch env n s")
  from skipSome_fetch_keeps [where I = I and env = env, OF cong rs f i] have i1: "I s1" .
  show ?thesis
  proof (cases r1)
    case (Some x)
    with f i1 show ?thesis by (simp add: skipSome_body_def)
  next
    case None
    show ?thesis
    proof (cases "m_buffer s1")
      case Nil
      with f None i1 show ?thesis by (simp add: skipSome_body_def)
    next
      case (Cons cur rest)
      obtain k s2 where k2: "skip_v env (n - m_inflight s1) s1 = (k, s2)"
        by (cases "skip_v env (n - m_inflight s1) s1")
      from sk [OF i1 k2] have i2: "I s2" .
      let ?s3 = "s2\<lparr>m_inflight := m_inflight s2 + k\<rparr>"
      have i3: "I ?s3" by (rule cong [OF _ i2]) simp
      have ip: "I (?s3\<lparr>m_buffer := tl (m_buffer ?s3), m_pos := 0\<rparr>)"
        by (rule cong [OF _ i2]) simp
      obtain e s4 where r4: "reset env (?s3\<lparr>m_pos := m_pos ?s3 + 1\<rparr>) = (e, s4)"
        by (cases "reset env (?s3\<lparr>m_pos := m_pos ?s3 + 1\<rparr>)")
      have "I (?s3\<lparr>m_pos := m_pos ?s3 + 1\<rparr>)" by (rule cong [OF _ i2]) simp
      from rs [OF this r4] have i4: "I s4" .
      from f None Cons k2 r4 i3 ip i4 show ?thesis
        by (cases e) (simp_all add: skipSome_body_def Let_def)
    qed
  qed
qed

lemma skipSome_loop_keeps:
  assumes cong: "\<And>s s'. scan_of s' = scan_of s \<Longrightarrow> I s \<Longrightarrow> I s'"
    and rs: "\<And>s e s'. I s \<Longrightarrow> reset env s = (e, s') \<Longrightarrow> I s'"
    and sk: "\<And>s l k s'. I s \<Longrightarrow> skip_v env l s = (k, s') \<Longrightarrow> I s'"
    and l: "skipSome_loop env n s = Some (r, s')" and i: "I s"
  shows "I s'"
proof -
  let ?P = "\<lambda>env' (n :: nat) s (y :: SkipResult \<times> ViewBlock).
              env' = env \<longrightarrow> I s \<longrightarrow> I (snd y)"
  have step: "?P env' n s y"
    if ih: "\<And>env n s y. loop env n s = Some y \<Longrightarrow> ?P env n s y"
      and eq: "(if m_inflight s < n
                then case skipSome_body env' n s of
                       Inl r \<Rightarrow> Some r
                     | Inr s1 \<Rightarrow> loop env' n s1
                else Some (skipSome_finish s)) = Some y"
    for loop env' n s y
  proof (intro impI)
    assume e: "env' = env" and i0: "I s"
    have b: "case skipSome_body env n s of Inl (r, s') \<Rightarrow> I s' | Inr s' \<Rightarrow> I s'"
      by (rule skipSome_body_keeps [where I = I, OF cong rs sk i0])
    show "I (snd y)"
    proof (cases "m_inflight s < n")
      case False
      with eq have "skipSome_finish s = y" by simp
      then have "skipSome_finish s = (fst y, snd y)" by simp
      from cong [OF skipSome_finish_scan_of [OF this] i0] show ?thesis .
    next
      case True
      show ?thesis
      proof (cases "skipSome_body env n s")
        case (Inl p)
        with True eq e b show ?thesis by (auto split: prod.splits)
      next
        case (Inr s1)
        with True eq e have "loop env n s1 = Some y" by simp
        from ih [OF this] Inr b show ?thesis by simp
      qed
    qed
  qed
  have "?P env n s (r, s')"
  proof (rule skipSome_loop.raw_induct [where P = ?P])
    fix loop env' n' s'' y'
    assume "\<And>n s b y. loop n s b = Some y \<Longrightarrow> ?P n s b y"
      and "(if m_inflight s'' < n'
            then case skipSome_body env' n' s'' of
                   Inl r \<Rightarrow> Some r
                 | Inr s1 \<Rightarrow> loop env' n' s1
            else Some (skipSome_finish s'')) = Some y'"
    then show "?P env' n' s'' y'" by (rule step)
  next
    show "skipSome_loop env n s = Some (r, s')" by fact
  qed
  with i show ?thesis by simp
qed

lemma skipSome_keeps:
  assumes cong: "\<And>s s'. scan_of s' = scan_of s \<Longrightarrow> I s \<Longrightarrow> I s'"
    and rs: "\<And>s e s'. I s \<Longrightarrow> reset env s = (e, s') \<Longrightarrow> I s'"
    and sk: "\<And>s l k s'. I s \<Longrightarrow> skip_v env l s = (k, s') \<Longrightarrow> I s'"
    and g: "skipSome env n s = Some (r, s')" and i: "I s"
  shows "I s'"
proof (cases "m_done s")
  case True
  with g have "skipSome_done s = (r, s')" by (simp add: skipSome_def)
  from cong [OF skipSome_done_scan_of [OF this] i] show ?thesis .
next
  case False
  with g have "skipSome_loop env n s = Some (r, s')" by (simp add: skipSome_def)
  from skipSome_loop_keeps [where I = I and env = env, OF cong rs sk this i] show ?thesis .
qed

text \<open>The property holds where the call makes its resets.\<close>

lemma getSome_inner_resets_keeps:
  assumes cong: "\<And>s s'. scan_of s' = scan_of s \<Longrightarrow> I s \<Longrightarrow> I s'"
    and rs: "\<And>s e s'. I s \<Longrightarrow> reset env s = (e, s') \<Longrightarrow> I s'"
  shows "getSome_inner_resets env n s t \<Longrightarrow> I s \<Longrightarrow> I t"
proof (induction rule: getSome_inner_resets.induct)
  case (after_fetch s st s0)
  from cong [OF getBlock_scan_of [OF after_fetch(2)] after_fetch(4)] have "I s0" .
  then show ?case by (rule cong [rotated]) simp
next
  case (next_row s s1 cur rest)
  from getSome_fetch_keeps [where I = I and env = env, OF cong rs next_row(1,5)] have "I s1" .
  then show ?case by (rule cong [rotated]) simp
next
  case (after_pop s s1 cur rest t)
  from getSome_fetch_keeps [where I = I and env = env, OF cong rs after_pop(1,7)] have "I s1" .
  then have "I (s1\<lparr>m_hasMore := True, m_buffer := rest, m_pos := 0\<rparr>)"
    by (rule cong [rotated]) simp
  then show ?case by (rule after_pop.IH)
next
  case (after_row s s1 cur rest s3 t)
  from getSome_fetch_keeps [where I = I and env = env, OF cong rs after_row(1,8)] have "I s1" .
  then have "I (s1\<lparr>m_hasMore := True, m_pos := m_pos s1 + 1\<rparr>)"
    by (rule cong [rotated]) simp
  from rs [OF this after_row(5)] have "I s3" .
  then show ?case by (rule after_row.IH)
qed

lemma getSome_loop_resets_keeps:
  assumes cong: "\<And>s s'. scan_of s' = scan_of s \<Longrightarrow> I s \<Longrightarrow> I s'"
    and rs: "\<And>s e s'. I s \<Longrightarrow> reset env s = (e, s') \<Longrightarrow> I s'"
    and nx: "\<And>s c l hm c' s'. I s \<Longrightarrow> next_v env c l s = (hm, c', s') \<Longrightarrow> I s'"
  shows "getSome_loop_resets env n ctx s t \<Longrightarrow> I s \<Longrightarrow> I t"
proof (induction rule: getSome_loop_resets.induct)
  case (this_round s t ctx)
  from getSome_inner_resets_keeps [where I = I and env = env, OF cong rs this_round(1,2)] show ?case .
next
  case (later_round ctx s ctx1 s1 t)
  have "case getSome_body env n ctx s of Inl (r, s') \<Rightarrow> I s' | Inr (c, s') \<Rightarrow> I s'"
    by (rule getSome_body_keeps [where I = I, OF cong rs nx later_round.prems])
  with later_round.hyps(1) have "I s1" by simp
  then show ?case by (rule later_round.IH)
qed

lemma skipSome_loop_resets_keeps:
  assumes cong: "\<And>s s'. scan_of s' = scan_of s \<Longrightarrow> I s \<Longrightarrow> I s'"
    and rs: "\<And>s e s'. I s \<Longrightarrow> reset env s = (e, s') \<Longrightarrow> I s'"
    and sk: "\<And>s l k s'. I s \<Longrightarrow> skip_v env l s = (k, s') \<Longrightarrow> I s'"
  shows "skipSome_loop_resets env n s t \<Longrightarrow> I s \<Longrightarrow> I t"
proof (induction rule: skipSome_loop_resets.induct)
  case (after_fetch s st s0)
  from cong [OF getBlock_scan_of [OF after_fetch(3)] after_fetch(5)] have "I s0" .
  then show ?case by (rule cong [rotated]) simp
next
  case (next_row s s1 cur rest k s2)
  from skipSome_fetch_keeps [where I = I and env = env, OF cong rs next_row(2,7)] have "I s1" .
  from sk [OF this next_row(4)] have "I s2" .
  then show ?case by (rule cong [rotated]) simp
next
  case (later_round s s1 t)
  have "case skipSome_body env n s of Inl (r, s') \<Rightarrow> I s' | Inr s' \<Rightarrow> I s'"
    by (rule skipSome_body_keeps [where I = I, OF cong rs sk later_round.prems])
  with later_round.hyps(2) have "I s1" by simp
  then show ?case by (rule later_round.IH)
qed

text \<open>The members after any number of calls.\<close>

inductive later_state :: "Env \<Rightarrow> ViewBlock \<Rightarrow> ViewBlock \<Rightarrow> bool"
  for env :: Env and s :: ViewBlock where
  now: "later_state env s s"
| after_getSome:
    "\<lbrakk>later_state env s s1; getSome env n s1 = Some (r, s2)\<rbrakk> \<Longrightarrow> later_state env s s2"
| after_skipSome:
    "\<lbrakk>later_state env s s1; skipSome env n s1 = Some (r, s2)\<rbrakk> \<Longrightarrow> later_state env s s2"

lemma later_state_keeps:
  assumes cong: "\<And>s s'. scan_of s' = scan_of s \<Longrightarrow> I s \<Longrightarrow> I s'"
    and rs: "\<And>s e s'. I s \<Longrightarrow> reset env s = (e, s') \<Longrightarrow> I s'"
    and nx: "\<And>s c l hm c' s'. I s \<Longrightarrow> next_v env c l s = (hm, c', s') \<Longrightarrow> I s'"
    and sk: "\<And>s l k s'. I s \<Longrightarrow> skip_v env l s = (k, s') \<Longrightarrow> I s'"
  shows "later_state env s s' \<Longrightarrow> I s \<Longrightarrow> I s'"
proof (induction rule: later_state.induct)
  case now
  then show ?case .
next
  case (after_getSome s1 n r s2)
  from after_getSome.IH after_getSome.prems have "I s1" .
  from getSome_keeps [where I = I, OF cong rs nx after_getSome.hyps(2) this]
  show ?case .
next
  case (after_skipSome s1 n r s2)
  from after_skipSome.IH after_skipSome.prems have "I s1" .
  from skipSome_keeps [where I = I, OF cong rs sk after_skipSome.hyps(2) this]
  show ?case .
qed


section \<open>The volatility flags\<close>

definition flags_ok :: "ViewBlock \<Rightarrow> bool" where
  "flags_ok s \<longleftrightarrow> (m_volatileSort s \<longrightarrow> m_volatileFilter s)"

lemma flags_ok_cong: "scan_of s' = scan_of s \<Longrightarrow> flags_ok s \<Longrightarrow> flags_ok s'"
  by (simp add: scan_of_def pred_of_def flags_ok_def)

lemma flags_ok_reset: "flags_ok s \<Longrightarrow> reset env s = (e, s') \<Longrightarrow> flags_ok s'"
  by (auto simp: reset_def reset_base_def flags_ok_def Let_def
           split: list.splits option.splits if_splits prod.splits)

lemma flags_ok_next: "flags_ok s \<Longrightarrow> next_v env c l s = (hm, c', s') \<Longrightarrow> flags_ok s'"
  by (auto simp: flags_ok_def pred_of_def dest!: next_v_frame)

lemma flags_ok_skip: "flags_ok s \<Longrightarrow> skip_v env l s = (k, s') \<Longrightarrow> flags_ok s'"
  by (auto simp: flags_ok_def pred_of_def dest!: skip_v_frame)

lemma flags_ok_new: "flags_ok (new_ViewBlock env deps)"
  by (simp add: flags_ok_def new_ViewBlock_def)

text \<open>
  C6: a volatile sort has a volatile filter after every \<open>reset()\<close> of every execution.
  The implication holds for the block as constructed, and after any number of calls of
  \<open>getSome\<close> and \<open>skipSome\<close>; it holds where such a call calls \<open>reset()\<close> and when that
  \<open>reset()\<close> has returned or thrown. \<open>reset()\<close> keeps the implication, completed or not:
  entered with the filter volatile and completed it sets both flags from the volatility of
  the node, whatever the flags were, and entered with the filter not volatile it leaves
  both alone.
\<close>

theorem reset_keeps_flag_invariant:
  "(m_volatileSort (new_ViewBlock env deps) \<longrightarrow> m_volatileFilter (new_ViewBlock env deps))
   \<and> (later_state env (new_ViewBlock env deps) s \<longrightarrow>
        (m_volatileSort s \<longrightarrow> m_volatileFilter s)
      \<and> (getSome_resets env n s t \<or> skipSome_resets env n s t \<longrightarrow>
            (m_volatileSort t \<longrightarrow> m_volatileFilter t)
          \<and> (m_volatileSort (snd (reset env t)) \<longrightarrow> m_volatileFilter (snd (reset env t)))))
   \<and> ((m_volatileSort u \<longrightarrow> m_volatileFilter u) \<longrightarrow>
        (m_volatileSort (snd (reset env u)) \<longrightarrow> m_volatileFilter (snd (reset env u))))
   \<and> (m_volatileFilter u \<longrightarrow> fst (reset env u) = None \<longrightarrow>
        m_volatileSort (snd (reset env u)) = snd (volatility env)
      \<and> m_volatileFilter (snd (reset env u)) = (snd (volatility env) \<or> fst (volatility env)))
   \<and> (\<not> m_volatileFilter u \<longrightarrow>
        m_volatileSort (snd (reset env u)) = m_volatileSort u
      \<and> m_volatileFilter (snd (reset env u)) = m_volatileFilter u)"
proof -
  let ?init = "new_ViewBlock env deps"
  have a: "flags_ok ?init" by (rule flags_ok_new)
  have b: "flags_ok s" if l: "later_state env ?init s"
    by (rule later_state_keeps [where I = flags_ok, OF flags_ok_cong flags_ok_reset flags_ok_next
          flags_ok_skip l a])
  have r: "flags_ok (snd (reset env v))" if "flags_ok v" for v
    using that flags_ok_reset [of v env "fst (reset env v)" "snd (reset env v)"] by simp
  have c: "flags_ok t" if l: "later_state env ?init s"
    and st: "getSome_resets env n s t \<or> skipSome_resets env n s t"
  proof -
    from st show ?thesis
    proof
      assume "getSome_resets env n s t"
      then have g: "getSome_loop_resets env n
                      \<lparr>curRegs = nrInputRegisters env, res = None, pos = 0\<rparr> s t"
        by (simp add: getSome_resets_def)
      show ?thesis
        by (rule getSome_loop_resets_keeps [where I = flags_ok, OF flags_ok_cong flags_ok_reset
              flags_ok_next g b [OF l]])
    next
      assume "skipSome_resets env n s t"
      then have g: "skipSome_loop_resets env n s t" by (simp add: skipSome_resets_def)
      show ?thesis
        by (rule skipSome_loop_resets_keeps [where I = flags_ok, OF flags_ok_cong flags_ok_reset
              flags_ok_skip g b [OF l]])
    qed
  qed
  have d: "m_volatileFilter u \<longrightarrow> fst (reset env u) = None \<longrightarrow>
        m_volatileSort (snd (reset env u)) = snd (volatility env)
      \<and> m_volatileFilter (snd (reset env u)) = (snd (volatility env) \<or> fst (volatility env))"
    by (auto simp: reset_def reset_base_def Let_def
             split: list.splits option.splits if_splits prod.splits)
  have e: "\<not> m_volatileFilter u \<longrightarrow>
        m_volatileSort (snd (reset env u)) = m_volatileSort u
      \<and> m_volatileFilter (snd (reset env u)) = m_volatileFilter u"
    by (auto simp: reset_def reset_base_def Let_def
             split: list.splits option.splits if_splits prod.splits)
  from a b c r [of u] r [of t] d e show ?thesis
    unfolding flags_ok_def by blast
qed

theorem reset_keeps_flag_invariant_witness:
  "m_volatileSort
     (snd (reset ((ex_env Scored ex_store_full)\<lparr>volatility := (False, True)\<rparr>)
        ((new_ViewBlock ((ex_env Scored ex_store_full)\<lparr>volatility := (False, True)\<rparr>) [])
           \<lparr>m_buffer := [ex_block], m_upstreamState := HASMORE, m_pos := 0\<rparr>)))
   \<and> m_volatileFilter
     (snd (reset ((ex_env Scored ex_store_full)\<lparr>volatility := (False, True)\<rparr>)
        ((new_ViewBlock ((ex_env Scored ex_store_full)\<lparr>volatility := (False, True)\<rparr>) [])
           \<lparr>m_buffer := [ex_block], m_upstreamState := HASMORE, m_pos := 0\<rparr>)))"
proof -
  let ?env = "(ex_env Scored ex_store_full)\<lparr>volatility := (False, True)\<rparr>"
  let ?s = "new_ViewBlock ?env [\<lambda>n. (HASMORE, Some ex_block)]"
  let ?t = "(new_ViewBlock ?env [])\<lparr>m_buffer := [ex_block], m_upstreamState := HASMORE, m_pos := 0\<rparr>"
  have l: "later_state ?env ?s ?s" by (rule later_state.now)
  have g: "getBlock (min (DefaultBatchSize ?env) 2) ?s
             = ((HASMORE, True), (new_ViewBlock ?env [])\<lparr>m_buffer := [ex_block]\<rparr>)"
    by (simp add: getBlock_def new_ViewBlock_def)
  have b: "m_buffer ?s = []" by (simp add: new_ViewBlock_def)
  have nw: "HASMORE \<noteq> WAITING" by simp
  from getSome_inner_resets.after_fetch [OF b g nw]
  have "getSome_inner_resets ?env 2 ?s ?t" by simp
  then have "getSome_resets ?env 2 ?s ?t"
    by (simp add: getSome_resets_def new_ViewBlock_def getSome_loop_resets.this_round)
  with reset_keeps_flag_invariant [where env = ?env and deps = "[\<lambda>n. (HASMORE, Some ex_block)]"
      and s = ?s and n = 2 and t = ?t] l
  have i: "m_volatileSort (snd (reset ?env ?t)) \<longrightarrow> m_volatileFilter (snd (reset ?env ?t))"
    by blast
  have "m_volatileSort (snd (reset ?env ?t))"
    by (simp add: reset_def reset_base_def new_ViewBlock_def ex_env_def Let_def)
  with i show ?thesis by simp
qed


section \<open>A failed reset\<close>

subsection \<open>A predicate that never compiles\<close>

























end
